theory Spec2Isabelle
  imports Complex_Main "HOL-Library.Word"
begin

unbundle bit_operations_syntax

section \<open>Go integers and bytes\<close>

type_synonym byte = "8 word"

text \<open>
  Go's \<open>int\<close> is a two's complement integer of 32 or 64 bits; the model takes the
  64-bit one, computes on \<open>int\<close> and wraps the result of an arithmetic expression with
  \<open>go_int\<close>. No statement below depends on the width: the coordinates and counters
  that occur stay far inside 32 bits. Go's \<open>/\<close> and \<open>%\<close> truncate towards zero.
\<close>

definition go_int :: "int \<Rightarrow> int" where
  "go_int n = signed_take_bit 63 n"

definition go_quot :: "int \<Rightarrow> int \<Rightarrow> int" where
  "go_quot a b = (if (a < 0) = (b < 0) then \<bar>a\<bar> div \<bar>b\<bar> else - (\<bar>a\<bar> div \<bar>b\<bar>))"

definition go_rem :: "int \<Rightarrow> int \<Rightarrow> int" where
  "go_rem a b = a - go_quot a b * b"

section \<open>The display driver (package nanohatoled)\<close>

text \<open>
  Errors of the driver. \<open>OutOfBounds\<close> and \<open>InvalidPixelValue\<close> are the two
  \<open>fmt.Errorf\<close> values of \<open>setPixel\<close>, \<open>IOFailure\<close> is an error returned by the bus,
  \<open>DrawInitFailed\<close> is the wrapped error of the first write in \<open>draw\<close>,
  \<open>ImageLoadFailed\<close> the wrapped error of \<open>imaging.Open\<close>, and \<open>IndexPanic\<close> is the
  run-time panic of a slice index out of range.
\<close>

datatype failure =
  OutOfBounds | InvalidPixelValue | IOFailure | DrawInitFailed | ImageLoadFailed | IndexPanic

text \<open>
  The I2C device handle: every \<open>Write\<close> is one attempt; \<open>broken n\<close> says whether the
  \<open>n\<close>-th attempt fails, \<open>written\<close> is the log of the byte sequences that went out.
\<close>

record i2c_device =
  attempts :: nat
  written :: "byte list list"
  broken :: "nat \<Rightarrow> bool"

definition devWrite :: "i2c_device \<Rightarrow> byte list \<Rightarrow> failure option \<times> i2c_device" where
  "devWrite dv bs =
     (if broken dv (attempts dv) then (Some IOFailure, dv\<lparr>attempts := attempts dv + 1\<rparr>)
      else (None, dv\<lparr>attempts := attempts dv + 1, written := written dv @ [bs]\<rparr>))"

text \<open>
  \<open>image.NRGBA\<close>: a rectangle with origin \<open>(0, 0)\<close> and one non-premultiplied colour per
  point. \<open>At\<close> outside the rectangle is the zero colour and \<open>Set\<close> outside it does
  nothing, as in Go's \<open>image\<close> package.
\<close>

datatype nrgba = NRGBA byte byte byte byte

record nrgba_image =
  dx :: int
  dy :: int
  pix :: "int \<Rightarrow> int \<Rightarrow> nrgba"

definition NewNRGBA :: "int \<Rightarrow> int \<Rightarrow> nrgba_image" where
  "NewNRGBA width height = \<lparr>dx = width, dy = height, pix = (\<lambda>x y. NRGBA 0 0 0 0)\<rparr>"

definition inBounds :: "nrgba_image \<Rightarrow> int \<Rightarrow> int \<Rightarrow> bool" where
  "inBounds im x y \<longleftrightarrow> 0 \<le> x \<and> x < dx im \<and> 0 \<le> y \<and> y < dy im"

definition At :: "nrgba_image \<Rightarrow> int \<Rightarrow> int \<Rightarrow> nrgba" where
  "At im x y = (if inBounds im x y then pix im x y else NRGBA 0 0 0 0)"

definition Set_px :: "nrgba_image \<Rightarrow> int \<Rightarrow> int \<Rightarrow> nrgba \<Rightarrow> nrgba_image" where
  "Set_px im x y c =
     (if inBounds im x y
      then im\<lparr>pix := (\<lambda>x' y'. if x' = x \<and> y' = y then c else pix im x' y')\<rparr>
      else im)"

text \<open>
  \<open>color.NRGBA.RGBA\<close>: each channel is widened to 16 bits and multiplied by alpha.
\<close>

definition premul :: "byte \<Rightarrow> byte \<Rightarrow> 32 word" where
  "premul c a = ((ucast c OR push_bit 8 (ucast c)) * ucast a) div 0xff"

fun RGBA :: "nrgba \<Rightarrow> 32 word \<times> 32 word \<times> 32 word \<times> 32 word" where
  "RGBA (NRGBA r g b a) =
     (premul r a, premul g a, premul b a, ucast a OR push_bit 8 (ucast a))"

definition White :: nrgba where "White = NRGBA 0xff 0xff 0xff 0xff"
definition Black :: nrgba where "Black = NRGBA 0 0 0 0xff"

record NanoOled =
  dev :: i2c_device
  w :: int
  h :: int
  buf :: "byte list"
  rotation :: int
  rotationState :: bool
  img :: nrgba_image
  currentBold :: bool
  fontSize :: rat

text \<open>
  \<open>fontSize\<close> is a \<open>float64\<close>; every finite \<open>float64\<close> is a rational, and the only
  operations on it in the driver are comparisons and truncation.
\<close>

definition baseAntiAliasThresh :: "16 word" where "baseAntiAliasThresh = 90"
definition sizeThresholdSmall :: rat where "sizeThresholdSmall = 12"
definition sizeThresholdLarge :: rat where "sizeThresholdLarge = 24"

definition getDynamicThreshold :: "NanoOled \<Rightarrow> 16 word" where
  "getDynamicThreshold d =
     (let thresh =
        (if fontSize d \<le> sizeThresholdSmall then baseAntiAliasThresh - 10
         else if fontSize d \<ge> sizeThresholdLarge then baseAntiAliasThresh + 10
         else baseAntiAliasThresh)
      in thresh * 256)"

definition setPixel :: "NanoOled \<Rightarrow> int \<Rightarrow> int \<Rightarrow> byte \<Rightarrow> failure option \<times> NanoOled" where
  "setPixel d x y v =
     (if x \<ge> w d \<or> y \<ge> h d then (Some OutOfBounds, d)
      else if v > 1 then (Some InvalidPixelValue, d)
      else
        let i = go_int (1 + x + go_quot y 8 * w d) in
        if i < 0 \<or> i \<ge> int (length (buf d)) then (Some IndexPanic, d)
        else if v = 0
          then (None, d\<lparr>buf := (buf d)[nat i := (buf d ! nat i) AND NOT (push_bit (nat (y AND 7)) 1)]\<rparr>)
          else (None, d\<lparr>buf := (buf d)[nat i := (buf d ! nat i) OR push_bit (nat (y AND 7)) 1]\<rparr>))"

definition draw :: "NanoOled \<Rightarrow> failure option \<times> NanoOled" where
  "draw d =
     (case devWrite (dev d) [0xa4, 0x40, 0x21, 0, word_of_int (w d), 0x22, 0, 7] of
        (Some e, dv) \<Rightarrow> (Some DrawInitFailed, d\<lparr>dev := dv\<rparr>)
      | (None, dv) \<Rightarrow>
          (case devWrite dv (buf d) of (r, dv') \<Rightarrow> (r, d\<lparr>dev := dv'\<rparr>)))"

text \<open>
  The libraries the driver calls and that are not part of this repository are parameters:
  the three rotations of \<open>disintegration/imaging\<close> and the rasteriser of
  \<open>golang/freetype\<close> (\<open>PointToFixed\<close> gives a 26.6 fixed-point number, \<open>DrawString\<close>
  takes the font choice, the size, the colour, the text and the pen position and paints
  into the destination image).
\<close>

record lib =
  Rotate90 :: "nrgba_image \<Rightarrow> nrgba_image"
  Rotate180 :: "nrgba_image \<Rightarrow> nrgba_image"
  Rotate270 :: "nrgba_image \<Rightarrow> nrgba_image"
  PointToFixed :: "rat \<Rightarrow> int"
  DrawString :: "bool \<Rightarrow> rat \<Rightarrow> nrgba \<Rightarrow> string \<Rightarrow> int \<Rightarrow> int \<Rightarrow> nrgba_image \<Rightarrow> nrgba_image"

function clearFrom :: "byte list \<Rightarrow> nat \<Rightarrow> byte list" where
  "clearFrom bs i = (if i < length bs then clearFrom (bs[i := 0]) (i + 1) else bs)"
  by pat_completeness auto
termination
  by (relation "measure (\<lambda>(bs, i). length bs - i)") auto

declare clearFrom.simps [simp del]

definition Clear :: "NanoOled \<Rightarrow> failure option \<times> NanoOled" where
  "Clear d =
     (let d1 = d\<lparr>img := (if rotation d = 90 \<or> rotation d = 270
                          then NewNRGBA 64 128 else NewNRGBA 128 64)\<rparr>;
          d2 = d1\<lparr>buf := clearFrom (buf d1) 1\<rparr>
      in draw d2)"

definition New :: "NanoOled \<Rightarrow> int \<Rightarrow> NanoOled" where
  "New d r =
     (let d1 = d\<lparr>rotation := r, rotationState := False\<rparr>;
          d2 = snd (Clear d1)
      in d2\<lparr>img := (if r = 90 \<or> r = 270 then NewNRGBA 64 128 else NewNRGBA 128 64)\<rparr>)"

text \<open>The test of \<open>Image\<close> on one pixel: \<open>gray := uint16((r + g + b) / 3); gray > threshold\<close>.\<close>

definition imageWhite :: "16 word \<Rightarrow> nrgba \<Rightarrow> bool" where
  "imageWhite threshold c =
     (case RGBA c of (r, g, b, a) \<Rightarrow> (ucast ((r + g + b) div 3) :: 16 word) > threshold)"

function imageRow :: "nrgba_image \<Rightarrow> 16 word \<Rightarrow> nrgba_image \<Rightarrow> int \<Rightarrow> int \<Rightarrow> nrgba_image" where
  "imageRow grayImg threshold binaryImg x y =
     (if x < dx grayImg
      then imageRow grayImg threshold
             (if imageWhite threshold (At grayImg x y) then Set_px binaryImg x y White
              else binaryImg) (x + 1) y
      else binaryImg)"
  by pat_completeness auto
termination
  by (relation "measure (\<lambda>(g, t, b, x, y). nat (dx g - x))") auto

declare imageRow.simps [simp del]

function imageRows :: "nrgba_image \<Rightarrow> 16 word \<Rightarrow> nrgba_image \<Rightarrow> int \<Rightarrow> nrgba_image" where
  "imageRows grayImg threshold binaryImg y =
     (if y < dy grayImg
      then imageRows grayImg threshold (imageRow grayImg threshold binaryImg 0 y) (y + 1)
      else binaryImg)"
  by pat_completeness auto
termination
  by (relation "measure (\<lambda>(g, t, b, y). nat (dy g - y))") auto

declare imageRows.simps [simp del]

text \<open>
  \<open>Image\<close>: the file is opened, fitted to 128 by 64 and turned to grayscale by the imaging
  library; \<open>loaded\<close> is the outcome of that (\<open>None\<close> when the file does not open).
\<close>

definition Image :: "NanoOled \<Rightarrow> nrgba_image option \<Rightarrow> failure option \<times> NanoOled" where
  "Image d loaded =
     (case loaded of
        None \<Rightarrow> (Some ImageLoadFailed, d)
      | Some grayImg \<Rightarrow>
          (let binaryImg = \<lparr>dx = dx grayImg, dy = dy grayImg, pix = (\<lambda>x y. Black)\<rparr>;
               threshold = getDynamicThreshold d
           in (None, d\<lparr>img := imageRows grayImg threshold binaryImg 0\<rparr>)))"

text \<open>The test of \<open>Send\<close> on one pixel: \<open>gray := (r + g + b) / 3; gray > uint32(threshold)\<close>.\<close>

definition sendBit :: "16 word \<Rightarrow> nrgba \<Rightarrow> byte" where
  "sendBit threshold c =
     (case RGBA c of (r, g, b, a) \<Rightarrow> if (r + g + b) div 3 > ucast threshold then 1 else 0)"

function sendCol ::
  "NanoOled \<Rightarrow> 16 word \<Rightarrow> int \<Rightarrow> int \<Rightarrow> int \<Rightarrow> int \<Rightarrow> int \<Rightarrow> failure option \<times> NanoOled" where
  "sendCol d threshold i imgI j imgY endY =
     (if j < endY
      then (case setPixel d i j (sendBit threshold (At (img d) imgI imgY)) of
              (Some e, d') \<Rightarrow> (Some e, d')
            | (None, d') \<Rightarrow> sendCol d' threshold i imgI (j + 1) (imgY + 1) endY)
      else (None, d))"
  by pat_completeness auto
termination
  by (relation "measure (\<lambda>(d, t, i, imgI, j, imgY, endY). nat (endY - j))") auto

declare sendCol.simps [simp del]

function sendCols ::
  "NanoOled \<Rightarrow> 16 word \<Rightarrow> int \<Rightarrow> int \<Rightarrow> int \<Rightarrow> int \<Rightarrow> failure option \<times> NanoOled" where
  "sendCols d threshold i imgI endX endY =
     (if i < endX
      then (case sendCol d threshold i imgI 0 0 endY of
              (Some e, d') \<Rightarrow> (Some e, d')
            | (None, d') \<Rightarrow> sendCols d' threshold (i + 1) (imgI + 1) endX endY)
      else (None, d))"
  by pat_completeness auto
termination
  by (relation "measure (\<lambda>(d, t, i, imgI, endX, endY). nat (endX - i))") auto

declare sendCols.simps [simp del]

definition applyRotation :: "lib \<Rightarrow> NanoOled \<Rightarrow> NanoOled" where
  "applyRotation L d =
     (if rotationState d = False then
        (if rotation d = 90 then d\<lparr>img := Rotate90 L (img d), rotationState := True\<rparr>
         else if rotation d = 180 then d\<lparr>img := Rotate180 L (img d), rotationState := True\<rparr>
         else if rotation d = 270 then d\<lparr>img := Rotate270 L (img d), rotationState := True\<rparr>
         else d)
      else d)"

definition Send :: "lib \<Rightarrow> NanoOled \<Rightarrow> failure option \<times> NanoOled" where
  "Send L d0 =
     (let d = applyRotation L d0;
          imgW = dx (img d);
          imgH = dy (img d);
          endX = (if imgW \<ge> w d then w d else imgW);
          endY = (if imgH \<ge> h d then h d else imgH);
          threshold = getDynamicThreshold d
      in case sendCols d threshold 0 0 endX endY of
           (Some e, d') \<Rightarrow> (Some e, d')
         | (None, d') \<Rightarrow> draw d')"

definition SetFontSize :: "NanoOled \<Rightarrow> rat \<Rightarrow> NanoOled" where
  "SetFontSize d sz = d\<lparr>fontSize := (if sz > 32 then 32 else sz)\<rparr>"

definition SetBold :: "NanoOled \<Rightarrow> bool \<Rightarrow> NanoOled" where
  "SetBold d isBold = d\<lparr>currentBold := isBold\<rparr>"

text \<open>Conversion of a \<open>float64\<close> to \<open>int\<close> drops the fraction.\<close>

definition float_to_int :: "rat \<Rightarrow> int" where
  "float_to_int q = (if q \<ge> 0 then \<lfloor>q\<rfloor> else \<lceil>q\<rceil>)"

definition Text :: "lib \<Rightarrow> NanoOled \<Rightarrow> int \<Rightarrow> int \<Rightarrow> string \<Rightarrow> bool \<Rightarrow> NanoOled" where
  "Text L d x0 y0 text textColor =
     (let x = (if x0 < 0 then 0 else x0);
          y1 = (if y0 < 0 then 0 else y0);
          maxY = h d - float_to_int (fontSize d) - 2;
          y = (if y1 > maxY then maxY else y1);
          c = (if textColor then White else Black);
          baselineOffset = (if fontSize d \<le> 12 then 2 else if fontSize d \<le> 24 then 3 else (4::int));
          baseY = y + PointToFixed L (fontSize d) div 64 - baselineOffset
      in d\<lparr>img := DrawString L (currentBold d) (fontSize d) c text x baseY (img d)\<rparr>)"

function rectRow :: "nrgba_image \<Rightarrow> int \<Rightarrow> int \<Rightarrow> int \<Rightarrow> nrgba \<Rightarrow> nrgba_image" where
  "rectRow im px MaxX py c =
     (if px \<le> MaxX then rectRow (Set_px im px py c) (px + 1) MaxX py c else im)"
  by pat_completeness auto
termination
  by (relation "measure (\<lambda>(im, px, MaxX, py, c). nat (MaxX + 1 - px))") auto

declare rectRow.simps [simp del]

function rectRows :: "nrgba_image \<Rightarrow> int \<Rightarrow> int \<Rightarrow> int \<Rightarrow> int \<Rightarrow> nrgba \<Rightarrow> nrgba_image" where
  "rectRows im MinX MaxX py MaxY c =
     (if py \<le> MaxY then rectRows (rectRow im MinX MaxX py c) MinX MaxX (py + 1) MaxY c else im)"
  by pat_completeness auto
termination
  by (relation "measure (\<lambda>(im, MinX, MaxX, py, MaxY, c). nat (MaxY + 1 - py))") auto

declare rectRows.simps [simp del]

definition Rect :: "NanoOled \<Rightarrow> int \<Rightarrow> int \<Rightarrow> int \<Rightarrow> int \<Rightarrow> bool \<Rightarrow> NanoOled" where
  "Rect d MinX0 MinY0 MaxX0 MaxY0 rectColor =
     (let MinX = (if MinX0 < 0 then 0 else MinX0);
          MinY = (if MinY0 < 0 then 0 else MinY0);
          MaxX = (if MaxX0 \<ge> w d then w d - 1 else MaxX0);
          MaxY = (if MaxY0 \<ge> h d then h d - 1 else MaxY0)
      in if MinX > MaxX \<or> MinY > MaxY then d
         else d\<lparr>img := rectRows (img d) MinX MaxX MinY MaxY (if rectColor then White else Black)\<rparr>)"

section \<open>Floating point\<close>

text \<open>
  A finite \<open>float64\<close> is a rational. \<open>float64\<close> rounds a rational to the nearest
  binary64 number, ties to even, as every IEEE operation does with its exact result.
  \<open>binade x\<close> is the exponent \<open>e\<close> with \<open>2^e \<le> x < 2^(e+1)\<close>; below \<open>2^-1022\<close> the
  spacing of the subnormal numbers is used. Overflow to infinity and NaN are outside the
  model: no value of this program reaches \<open>2^1024\<close>.
\<close>

definition pow2 :: "int \<Rightarrow> rat" where
  "pow2 e = (if e \<ge> 0 then 2 ^ nat e else 1 / 2 ^ nat (- e))"

function bit_length :: "int \<Rightarrow> int" where
  "bit_length n = (if n \<le> 0 then 0 else 1 + bit_length (n div 2))"
  by pat_completeness auto
termination
  by (relation "measure nat") auto

declare bit_length.simps [simp del]

definition binade :: "rat \<Rightarrow> int" where
  "binade x =
     (case quotient_of x of (p, q) \<Rightarrow>
        let k = bit_length p - bit_length q
        in if pow2 k \<le> x then k else k - 1)"

definition round_half_even :: "rat \<Rightarrow> int" where
  "round_half_even x =
     (let f = \<lfloor>x\<rfloor>; r = x - of_int f
      in if r < 1 / 2 then f else if r > 1 / 2 then f + 1 else if even f then f else f + 1)"

definition float64 :: "rat \<Rightarrow> rat" where
  "float64 x =
     (if x = 0 then 0
      else let e = max (binade \<bar>x\<bar>) (- 1022); u = pow2 (e - 52)
           in of_int (round_half_even (x / u)) * u)"

text \<open>Decimal digits, and \<open>fmt.Sprintf("%.1f", x)\<close>: the nearest number with one decimal.\<close>

function digits :: "nat \<Rightarrow> string" where
  "digits n =
     (if n < 10 then [char_of (48 + n)] else digits (n div 10) @ [char_of (48 + n mod 10)])"
  by pat_completeness auto
termination
  by (relation "measure id") auto

declare digits.simps [simp del]

definition format_f1 :: "rat \<Rightarrow> string" where
  "format_f1 x =
     (let t = nat (round_half_even (\<bar>x\<bar> * 10))
      in (if x < 0 then [CHR ''-''] else []) @ digits (t div 10) @ [CHR ''.''] @ digits (t mod 10))"

section \<open>The page state machine (package main)\<close>

definition pageSleep :: int where "pageSleep = 10"
definition displayWidth :: int where "displayWidth = 128"
definition timeX :: int where "timeX = 8"
definition timeY :: int where "timeY = 38"
definition timeWidth :: int where "timeWidth = 110"
definition timeHeight :: int where "timeHeight = 28"

text \<open>The package-level variables; \<open>pageMutex\<close> is in the task model further down.\<close>

record app =
  oled :: NanoOled
  pageIndex :: int
  pageSleepCount :: int
  drawing :: bool
  shutdownFlag :: bool
  shutdownSelect :: int
  lastPageIndex :: int
  lastTimeStr :: string
  lastShutdownSel :: int
  staticDrawn :: bool

text \<open>
  What one call of \<open>drawPage\<close> reads from outside: the formatted date of the first
  \<open>time.Now()\<close>, the Unix seconds of the second one with the two year boundaries, the
  formatted clock of the third, and the five status lines of the system page.
\<close>

record world =
  dateText :: string
  nowUnix :: int
  yearStart :: int
  yearEnd :: int
  clockText :: string
  ipText :: string
  cpuLoadText :: string
  memUsageText :: string
  diskUsageText :: string
  cpuTempText :: string

text \<open>The two block glyphs U+2593 and U+2591, in UTF-8.\<close>

definition filledCell :: string where
  "filledCell = [char_of (0xE2::nat), char_of (0x96::nat), char_of (0x93::nat)]"

definition emptyCell :: string where
  "emptyCell = [char_of (0xE2::nat), char_of (0x96::nat), char_of (0x91::nat)]"

definition Repeat :: "string \<Rightarrow> int \<Rightarrow> string" where
  "Repeat s n = concat (replicate (nat n) s)"

definition yearPercent :: "int \<Rightarrow> int \<Rightarrow> int \<Rightarrow> rat" where
  "yearPercent now start end' =
     float64 (float64 (float64 (of_int (now - start)) / float64 (of_int (end' - start))) * 100)"

definition yearBarLen :: "rat \<Rightarrow> int" where
  "yearBarLen percent =
     (let barLen = float_to_int (float64 (percent / 10))
      in if barLen < 0 then 0 else if barLen > 10 then 10 else barLen)"

definition getYearProgressText :: "int \<Rightarrow> int \<Rightarrow> int \<Rightarrow> string" where
  "getYearProgressText now start end' =
     (let percent = yearPercent now start end';
          barLen = yearBarLen percent;
          bar = Repeat filledCell barLen @ Repeat emptyCell (10 - barLen)
      in bar @ format_f1 percent @ [CHR ''%''])"

definition clearTimeArea :: "lib \<Rightarrow> NanoOled \<Rightarrow> NanoOled" where
  "clearTimeArea L d =
     (let d1 = Rect d (timeX - 1) (timeY + 2) (timeX + timeWidth + 10) (timeY + timeHeight) False;
          d2 = SetFontSize d1 24;
          d3 = SetBold d2 True
      in Text L d3 timeX timeY (replicate 15 CHR '' '') False)"

definition drawTimePageStatic :: "lib \<Rightarrow> world \<Rightarrow> app \<Rightarrow> app" where
  "drawTimePageStatic L W s =
     (let d1 = snd (Clear (oled s));
          d2 = New d1 0;
          d3 = SetBold (SetFontSize d2 14) False;
          d4 = Text L d3 2 2 (dateText W) True;
          d5 = Text L d4 2 20 (getYearProgressText (nowUnix W) (yearStart W) (yearEnd W)) True;
          d6 = SetBold (SetFontSize d5 24) True;
          currentTime = clockText W;
          d7 = Text L d6 timeX timeY currentTime True;
          d8 = snd (Send L d7)
      in s\<lparr>oled := d8, lastTimeStr := currentTime, staticDrawn := True\<rparr>)"

definition updateTimeOnly :: "lib \<Rightarrow> world \<Rightarrow> app \<Rightarrow> app" where
  "updateTimeOnly L W s =
     (let currentTime = clockText W
      in if currentTime = lastTimeStr s then s
         else
           let d1 = clearTimeArea L (oled s);
               d2 = Text L d1 timeX timeY currentTime True;
               d3 = snd (Send L d2)
           in s\<lparr>oled := d3, lastTimeStr := currentTime\<rparr>)"

definition drawNonTimePage :: "lib \<Rightarrow> world \<Rightarrow> app \<Rightarrow> app" where
  "drawNonTimePage L W s =
     (let d1 = snd (Clear (oled s));
          d2 = New d1 0;
          d3 =
            (if pageIndex s = 1 then
               (let e1 = SetBold (SetFontSize d2 10) False;
                    e2 = Text L e1 2 0 (''IP: '' @ ipText W) True;
                    e3 = Text L e2 2 12 (cpuLoadText W) True;
                    e4 = Text L e3 2 24 (memUsageText W) True;
                    e5 = Text L e4 2 36 (diskUsageText W) True
                in Text L e5 2 48 (cpuTempText W) True)
             else if pageIndex s = 3 then
               (let e1 = SetBold (SetFontSize d2 14) True;
                    e2 = Text L e1 2 2 ''Shutdown?'' True;
                    e3 = SetBold (SetFontSize e2 11) False
                in if shutdownSelect s = 0 then
                     (let f1 = Rect e3 2 20 (displayWidth - 4) 36 True;
                          f2 = Text L f1 4 22 ''Yes'' False;
                          f3 = Rect f2 2 38 (displayWidth - 4) 54 False
                      in Text L f3 4 40 ''No'' True)
                   else
                     (let f1 = Rect e3 2 20 (displayWidth - 4) 36 False;
                          f2 = Text L f1 4 22 ''Yes'' True;
                          f3 = Rect f2 2 38 (displayWidth - 4) 54 True
                      in Text L f3 4 40 ''No'' False))
             else d2);
          d4 = snd (Send L d3)
      in s\<lparr>oled := d4, lastPageIndex := pageIndex s, lastShutdownSel := shutdownSelect s\<rparr>)"

text \<open>
  \<open>drawPage\<close>, the body between \<open>pageMutex.Lock()\<close> and the deferred \<open>Unlock\<close>. The
  deferred function that lowers \<open>drawing\<close> is registered only after the two early
  returns.
\<close>

definition drawPage :: "lib \<Rightarrow> world \<Rightarrow> app \<Rightarrow> app" where
  "drawPage L W s =
     (if drawing s \<or> shutdownFlag s then s
      else if pageSleepCount s \<le> 0 then
        (if pageSleepCount s = 0 then
           (let d1 = snd (Clear (oled s));
                d2 = snd (Send L d1)
            in s\<lparr>oled := d2, staticDrawn := False, lastPageIndex := - 1, pageSleepCount := - 1\<rparr>)
         else s)
      else
        let s1 = s\<lparr>pageSleepCount := pageSleepCount s - 1\<rparr>;
            s2 = s1\<lparr>drawing := True\<rparr>;
            s3 =
              (if pageIndex s2 = 0 then
                 (if \<not> staticDrawn s2 \<or> lastPageIndex s2 \<noteq> 0
                  then (drawTimePageStatic L W s2)\<lparr>lastPageIndex := 0\<rparr>
                  else updateTimeOnly L W s2)
               else if pageIndex s2 = 1 \<or> pageIndex s2 = 3 then
                 (if pageIndex s2 \<noteq> lastPageIndex s2
                     \<or> (pageIndex s2 = 3 \<and> shutdownSelect s2 \<noteq> lastShutdownSel s2)
                  then drawNonTimePage L W s2 else s2)
               else s2)
        in s3\<lparr>drawing := False\<rparr>)"

text \<open>
  \<open>resetSleepCount\<close> and the three handlers. Each handler calls \<open>resetSleepCount\<close>
  first, which takes and releases the lock, and then runs its own locked section.
\<close>

definition resetSleepCount :: "app \<Rightarrow> app" where
  "resetSleepCount s = s\<lparr>pageSleepCount := pageSleep, staticDrawn := False\<rparr>"

definition handleK1_locked :: "app \<Rightarrow> app" where
  "handleK1_locked s =
     (if pageIndex s = 3 then s\<lparr>shutdownSelect := go_rem (go_int (shutdownSelect s + 1)) 2\<rparr>
      else s\<lparr>pageIndex := 0\<rparr>)"

definition handleK2_locked :: "app \<Rightarrow> app" where
  "handleK2_locked s =
     (if pageIndex s = 3 then
        (if shutdownSelect s = 0 then s\<lparr>shutdownFlag := True\<rparr> else s\<lparr>pageIndex := 0\<rparr>)
      else s\<lparr>pageIndex := 1\<rparr>)"

definition handleK3_locked :: "app \<Rightarrow> app" where
  "handleK3_locked s =
     (if pageIndex s = 3 then s\<lparr>pageIndex := 0\<rparr>
      else s\<lparr>pageIndex := 3, shutdownSelect := 1\<rparr>)"

definition handleK1 :: "app \<Rightarrow> app" where
  "handleK1 s = handleK1_locked (resetSleepCount s)"

definition handleK2 :: "app \<Rightarrow> app" where
  "handleK2 s = handleK2_locked (resetSleepCount s)"

definition handleK3 :: "app \<Rightarrow> app" where
  "handleK3 s = handleK3_locked (resetSleepCount s)"

text \<open>
  \<open>doShutdown\<close>, up to the point where the process is replaced by \<open>poweroff\<close> or exits;
  it never unlocks \<open>pageMutex\<close>.
\<close>

definition doShutdown :: "lib \<Rightarrow> app \<Rightarrow> app" where
  "doShutdown L s =
     (let d1 = snd (Clear (oled s));
          d2 = New d1 0;
          d3 = SetBold (SetFontSize d2 14) True;
          d4 = Text L d3 2 2 ''Shutting down'' True;
          d5 = SetBold (SetFontSize d4 11) False;
          d6 = Text L d5 2 20 ''Please wait...'' True;
          d7 = snd (Send L d6);
          d8 = snd (Clear d7);
          d9 = snd (Send L d8)
      in s\<lparr>oled := d9\<rparr>)"

text \<open>
  The values \<open>main\<close> gives the package variables before it starts the button tasks
  (\<open>shutdownSelect = 1\<close> is its first statement).
\<close>

definition startApp :: "NanoOled \<Rightarrow> app" where
  "startApp d =
     \<lparr>oled = d, pageIndex = 0, pageSleepCount = pageSleep, drawing = False,
      shutdownFlag = False, shutdownSelect = 1, lastPageIndex = - 1, lastTimeStr = [],
      lastShutdownSel = - 1, staticDrawn = False\<rparr>"

section \<open>The tasks and the lock\<close>

text \<open>
  Four tasks run: the heartbeat loop of \<open>main\<close> and one \<open>watchBtn\<close> goroutine per button.
  Every access to the package variables lies between \<open>pageMutex.Lock()\<close> and
  \<open>pageMutex.Unlock()\<close>, so a task's run is a sequence of locked sections:
  \<open>resetSleepCount\<close>, the handler's own section and \<open>drawPage\<close> for a button press;
  the read of \<open>shutdownFlag\<close>, then \<open>drawPage\<close> or \<open>doShutdown\<close> for a tick.
  A task that wants a section takes the lock when it is free (\<open>Enter\<close>), and later runs
  the section's body and releases the lock (\<open>Leave\<close>). Sections of different tasks
  interleave in any order.
\<close>

datatype task = Heartbeat | K1 | K2 | K3

datatype locked_section = Reset | Handle | Draw | Check | Shutdown

datatype pc = Waiting | Want locked_section | Holding locked_section | Exited

record config =
  shared :: app
  holder :: "task option"
  pcs :: "task \<Rightarrow> pc"

datatype event = Edge task | Tick | Enter task | Leave task world

fun handler :: "task \<Rightarrow> app \<Rightarrow> app" where
  "handler K1 s = handleK1_locked s"
| "handler K2 s = handleK2_locked s"
| "handler K3 s = handleK3_locked s"
| "handler Heartbeat s = s"

fun section_body :: "lib \<Rightarrow> world \<Rightarrow> task \<Rightarrow> locked_section \<Rightarrow> app \<Rightarrow> app" where
  "section_body L W t Reset s = resetSleepCount s"
| "section_body L W t Handle s = handler t s"
| "section_body L W t Draw s = drawPage L W s"
| "section_body L W t Check s = s"
| "section_body L W t Shutdown s = doShutdown L s"

fun next_pc :: "locked_section \<Rightarrow> app \<Rightarrow> pc" where
  "next_pc Reset s = Want Handle"
| "next_pc Handle s = Want Draw"
| "next_pc Draw s = Waiting"
| "next_pc Check s = (if shutdownFlag s then Want Shutdown else Want Draw)"
| "next_pc Shutdown s = Exited"

fun fire :: "lib \<Rightarrow> event \<Rightarrow> config \<Rightarrow> config option" where
  "fire L (Edge t) c =
     (if t \<noteq> Heartbeat \<and> pcs c t = Waiting \<and> pcs c Heartbeat \<noteq> Exited
      then Some (c\<lparr>pcs := (pcs c)(t := Want Reset)\<rparr>) else None)"
| "fire L Tick c =
     (if pcs c Heartbeat = Waiting
      then Some (c\<lparr>pcs := (pcs c)(Heartbeat := Want Check)\<rparr>) else None)"
| "fire L (Enter t) c =
     (case pcs c t of
        Want sec \<Rightarrow>
          (if holder c = None
           then Some (c\<lparr>holder := Some t, pcs := (pcs c)(t := Holding sec)\<rparr>) else None)
      | _ \<Rightarrow> None)"
| "fire L (Leave t W) c =
     (case pcs c t of
        Holding sec \<Rightarrow>
          (if sec = Shutdown
           then Some (c\<lparr>shared := section_body L W t sec (shared c),
                        pcs := (pcs c)(t := Exited)\<rparr>)
           else Some (c\<lparr>shared := section_body L W t sec (shared c), holder := None,
                        pcs := (pcs c)(t := next_pc sec (shared c))\<rparr>))
      | _ \<Rightarrow> None)"

fun run :: "lib \<Rightarrow> event list \<Rightarrow> config \<Rightarrow> config option" where
  "run L [] c = Some c"
| "run L (e # es) c = (case fire L e c of None \<Rightarrow> None | Some c' \<Rightarrow> run L es c')"

definition boot :: "NanoOled \<Rightarrow> config" where
  "boot d = \<lparr>shared = startApp d, holder = None, pcs = (\<lambda>t. Waiting)\<rparr>"

inductive reach :: "lib \<Rightarrow> config \<Rightarrow> config \<Rightarrow> bool" for L :: lib and c0 :: config where
  reach_start: "reach L c0 c0"
| reach_step: "reach L c0 c \<Longrightarrow> fire L e c = Some c' \<Longrightarrow> reach L c0 c'"

definition in_draw :: "config \<Rightarrow> task \<Rightarrow> bool" where
  "in_draw c t \<longleftrightarrow> pcs c t = Holding Draw \<or> pcs c t = Holding Shutdown"

section \<open>Concrete values for the examples\<close>

text \<open>
  The struct that \<open>Open\<close> builds (128 by 64, the buffer of 1025 bytes with the data
  prefix 0x40, font size 14, regular font) on a bus that never fails, with the blank
  image that the first \<open>Clear\<close> of \<open>main\<close> allocates.
\<close>

definition bus0 :: i2c_device where
  "bus0 = \<lparr>attempts = 0, written = [], broken = (\<lambda>n. False)\<rparr>"

definition panel0 :: NanoOled where
  "panel0 =
     \<lparr>dev = bus0, w = 128, h = 64, buf = 0x40 # replicate 1024 0, rotation = 0,
      rotationState = False, img = NewNRGBA 128 64, currentBold = False, fontSize = 14\<rparr>"

text \<open>A library instance for the examples: quarter turns that only swap the sides, and a
  rasteriser that paints nothing.\<close>

definition turned :: "nrgba_image \<Rightarrow> nrgba_image" where
  "turned im = \<lparr>dx = dy im, dy = dx im, pix = (\<lambda>x y. pix im y x)\<rparr>"

definition lib0 :: lib where
  "lib0 =
     \<lparr>Rotate90 = turned, Rotate180 = (\<lambda>im. im), Rotate270 = turned,
      PointToFixed = (\<lambda>sz. \<lfloor>sz * 64\<rfloor>),
      DrawString = (\<lambda>bold sz c text x y im. im)\<rparr>"

definition world0 :: world where
  "world0 =
     \<lparr>dateText = ''Thu  1 Jan 2026'', nowUnix = 1767225600, yearStart = 1767225600,
      yearEnd = 1798761600, clockText = ''00:00:00'', ipText = ''192.168.1.1'',
      cpuLoadText = ''CPU Load: 0.00'', memUsageText = ''Mem: 10/512MB 2.0%'',
      diskUsageText = ''Disk: 1.0/8.0GB 12%'', cpuTempText = ''CPU TEMP: 40'' \<rparr>"

text \<open>The screen and buffer sizes that \<open>Open\<close> sets, and with them the rotation 0
  that every \<open>New(0)\<close> of \<open>main\<close> sets.\<close>

definition screen_ok :: "NanoOled \<Rightarrow> bool" where
  "screen_ok d \<longleftrightarrow> w d = 128 \<and> h d = 64 \<and> length (buf d) = 1025"

definition panel_ok :: "NanoOled \<Rightarrow> bool" where
  "panel_ok d \<longleftrightarrow> screen_ok d \<and> rotation d = 0"

text \<open>The buffer index of an in-range point on the 128 by 64 screen.\<close>

definition idx :: "int \<Rightarrow> int \<Rightarrow> nat" where
  "idx x y = nat (1 + x + (y div 8) * 128)"

text \<open>The bit of the buffer that \<open>setPixel\<close> addresses for an in-range point.\<close>

definition pixelBit :: "NanoOled \<Rightarrow> int \<Rightarrow> int \<Rightarrow> bool" where
  "pixelBit d x y = bit (buf d ! nat (1 + x + go_quot y 8 * w d)) (nat (y AND 7))"

text \<open>A run of heartbeat redraws, one reading of the outside world per call.\<close>

fun heartbeats :: "lib \<Rightarrow> world list \<Rightarrow> app \<Rightarrow> app" where
  "heartbeats L [] s = s"
| "heartbeats L (W # Ws) s = heartbeats L Ws (drawPage L W s)"

text \<open>A loaded picture of one white pixel, for the examples.\<close>

definition whiteDot :: nrgba_image where
  "whiteDot = \<lparr>dx = 1, dy = 1, pix = (\<lambda>x y. White)\<rparr>"

text \<open>What the lock guarantees: a task inside a locked section is the holder, and the
  holder is inside a section (or is the heartbeat task that has left through
  \<open>doShutdown\<close>, which never unlocks).\<close>

definition lock_inv :: "config \<Rightarrow> bool" where
  "lock_inv c \<longleftrightarrow>
     (\<forall>t sec. pcs c t = Holding sec \<longrightarrow> holder c = Some t) \<and>
     (\<forall>t. holder c = Some t \<longrightarrow> (\<exists>sec. pcs c t = Holding sec) \<or> pcs c t = Exited)"

text \<open>Three configurations of the examples: the heartbeat inside \<open>drawPage\<close>; a K3 press
  from the clock page that has run its handler and has its \<open>drawPage\<close> still to come; and
  the same after a whole K1 handler has run in between.\<close>

definition at_draw :: config where
  "at_draw =
     \<lparr>shared = startApp panel0, holder = Some Heartbeat,
      pcs = (\<lambda>t. Waiting)(Heartbeat := Holding Draw)\<rparr>"

definition after_K3 :: config where
  "after_K3 =
     \<lparr>shared = (startApp panel0)\<lparr>pageIndex := 3\<rparr>, holder = None,
      pcs = (\<lambda>t. Waiting)(K3 := Want Draw)\<rparr>"

definition after_K3_K1 :: config where
  "after_K3_K1 =
     \<lparr>shared = (startApp panel0)\<lparr>pageIndex := 3, shutdownSelect := 0\<rparr>, holder = None,
      pcs = (\<lambda>t. Waiting)(K3 := Want Draw, K1 := Want Draw)\<rparr>"

text \<open>Two driver states that differ at most in the pixel buffer.\<close>

definition only_buf :: "NanoOled \<Rightarrow> NanoOled \<Rightarrow> bool" where
  "only_buf d d' \<longleftrightarrow> d'\<lparr>buf := buf d\<rparr> = d"

section \<open>Page transitions\<close>

lemma go_rem_toggle: "go_rem (go_int (0 + 1)) 2 = 1" "go_rem (go_int (1 + 1)) 2 = 0"
  by (simp_all add: go_rem_def go_quot_def go_int_def)

lemmas handler_defs =
  handleK1_def handleK2_def handleK3_def handleK1_locked_def handleK2_locked_def
  handleK3_locked_def resetSleepCount_def

text \<open>
  Claim C1. In every page state, a K1 press on the shutdown page (index 3) turns a
  \<open>shutdownSelect\<close> of 0 into 1 and of 1 into 0 and stays on that page, and on any other
  page it goes to the clock page (index 0); a K3 press on the shutdown page goes to the
  clock page, and on any other page it goes to the shutdown page with \<open>shutdownSelect\<close>
  set to 1.
\<close>

theorem handleK1_handleK3_transitions:
  "(pageIndex s = 3 \<longrightarrow>
      pageIndex (handleK1 s) = 3 \<and>
      (shutdownSelect s = 0 \<longrightarrow> shutdownSelect (handleK1 s) = 1) \<and>
      (shutdownSelect s = 1 \<longrightarrow> shutdownSelect (handleK1 s) = 0)) \<and>
   (pageIndex s \<noteq> 3 \<longrightarrow>
      pageIndex (handleK1 s) = 0 \<and> shutdownSelect (handleK1 s) = shutdownSelect s) \<and>
   (pageIndex s = 3 \<longrightarrow>
      pageIndex (handleK3 s) = 0 \<and> shutdownSelect (handleK3 s) = shutdownSelect s) \<and>
   (pageIndex s \<noteq> 3 \<longrightarrow>
      pageIndex (handleK3 s) = 3 \<and> shutdownSelect (handleK3 s) = 1)"
  by (simp add: handler_defs go_rem_toggle [simplified])

theorem handleK1_handleK3_transitions_witness:
  "pageIndex (startApp panel0) \<noteq> 3 \<and>
   pageIndex (handleK1 (startApp panel0)) = 0 \<and>
   pageIndex (handleK3 (startApp panel0)) = 3 \<and>
   shutdownSelect (handleK3 (startApp panel0)) = 1 \<and>
   shutdownSelect (handleK1 (handleK3 (startApp panel0))) = 0 \<and>
   shutdownSelect (handleK1 (handleK1 (handleK3 (startApp panel0)))) = 1 \<and>
   pageIndex (handleK3 (handleK3 (startApp panel0))) = 0"
  using handleK1_handleK3_transitions [of "startApp panel0"]
    handleK1_handleK3_transitions [of "handleK3 (startApp panel0)"]
    handleK1_handleK3_transitions [of "handleK1 (handleK3 (startApp panel0))"]
  by (simp add: startApp_def)

text \<open>
  Claim C2, as stated, fails: the handlers do not look at the shutdown flag. From the
  clock page, K3, K1 and K2 raise the flag on the shutdown page; a further K3 press then
  sets the page index to 0.
\<close>

theorem shutdown_not_terminal_counterexample:
  "shutdownFlag (handleK2 (handleK1 (handleK3 (startApp panel0)))) \<and>
   pageIndex (handleK2 (handleK1 (handleK3 (startApp panel0)))) = 3 \<and>
   pageIndex (handleK3 (handleK2 (handleK1 (handleK3 (startApp panel0))))) = 0"
  by (simp add: handler_defs startApp_def go_rem_toggle [simplified])

text \<open>
  Claim C2, amended. A K2 press on the shutdown page raises the shutdown flag when
  \<open>shutdownSelect\<close> is 0 and goes to the clock page when it is 1; on any other page it
  goes to the system page (index 1). Once the flag is raised no handler lowers it and
  \<open>drawPage\<close> changes nothing, so nothing is redrawn any more; the handlers themselves
  still update the page index.
\<close>

theorem handleK2_transitions_shutdown_sticky:
  "(pageIndex s = 3 \<and> shutdownSelect s = 0 \<longrightarrow>
      shutdownFlag (handleK2 s) \<and> pageIndex (handleK2 s) = 3) \<and>
   (pageIndex s = 3 \<and> shutdownSelect s = 1 \<longrightarrow>
      pageIndex (handleK2 s) = 0 \<and> shutdownFlag (handleK2 s) = shutdownFlag s) \<and>
   (pageIndex s \<noteq> 3 \<longrightarrow>
      pageIndex (handleK2 s) = 1 \<and> shutdownFlag (handleK2 s) = shutdownFlag s) \<and>
   (shutdownFlag s \<longrightarrow>
      shutdownFlag (handleK1 s) \<and> shutdownFlag (handleK2 s) \<and> shutdownFlag (handleK3 s) \<and>
      drawPage L W s = s)"
  by (simp add: handler_defs drawPage_def)

theorem handleK2_transitions_shutdown_sticky_witness:
  "pageIndex (handleK2 (startApp panel0)) = 1 \<and>
   pageIndex (handleK2 (handleK3 (startApp panel0))) = 0 \<and>
   shutdownFlag (handleK2 (handleK1 (handleK3 (startApp panel0)))) \<and>
   shutdownFlag (handleK3 (handleK2 (handleK1 (handleK3 (startApp panel0))))) \<and>
   drawPage lib0 world0 (handleK2 (handleK1 (handleK3 (startApp panel0)))) =
     handleK2 (handleK1 (handleK3 (startApp panel0)))"
  using handleK2_transitions_shutdown_sticky [of "startApp panel0" lib0 world0]
    handleK2_transitions_shutdown_sticky [of "handleK3 (startApp panel0)" lib0 world0]
    handleK2_transitions_shutdown_sticky [of "handleK1 (handleK3 (startApp panel0))" lib0 world0]
    handleK2_transitions_shutdown_sticky
      [of "handleK2 (handleK1 (handleK3 (startApp panel0)))" lib0 world0]
  by (simp add: handler_defs startApp_def go_rem_toggle [simplified])

section \<open>Thresholds\<close>

lemma widen_eq: "(ucast (c::byte) :: 32 word) OR push_bit 8 (ucast c) = ucast c * 0x101"
proof -
  have "(ucast c :: 32 word) + push_bit 8 (ucast c) = ucast c OR push_bit 8 (ucast c)"
    by (rule disjunctive_add) (auto simp add: bit_simps dest: bit_imp_le_length)
  then show ?thesis by (simp add: push_bit_eq_mult algebra_simps)
qed

lemma unat_byte_le: "unat (c::byte) \<le> 255"
  using unsigned_less [of c, where 'a = nat] by simp

lemma unat_ucast_byte: "unat (ucast (c::byte) :: 32 word) = unat c"
  using unat_byte_le [of c] by (simp add: unsigned_ucast_eq take_bit_nat_eq_self)

lemma premul_arg_le: "unat (c::byte) * 257 * unat (a::byte) \<le> 16711425"
proof -
  have "unat c * 257 \<le> 65535" using unat_byte_le [of c] by simp
  then have "unat c * 257 * unat a \<le> 65535 * 255"
    using unat_byte_le [of a] by (rule mult_le_mono)
  then show ?thesis by simp
qed

lemma unat_premul: "unat (premul c a) = (unat c * 257 * unat a) div 255"
proof -
  have 1: "unat ((ucast c :: 32 word) * 0x101) = unat c * 257"
    using unat_byte_le [of c] by (simp add: unat_word_ariths unat_ucast_byte)
  have "(16711425::nat) < 2 ^ LENGTH(32)" by simp
  with premul_arg_le [of c a] have lt: "unat c * 257 * unat a < 2 ^ LENGTH(32)"
    by (rule le_less_trans)
  have "unat ((ucast c :: 32 word) * 0x101 * ucast a)
      = unat ((ucast c :: 32 word) * 0x101) * unat (ucast a :: 32 word)"
    by (rule iffD1 [OF unat_mult_lem]) (simp only: 1 unat_ucast_byte lt)
  then have 2: "unat ((ucast c :: 32 word) * 0x101 * ucast a) = unat c * 257 * unat a"
    by (simp only: 1 unat_ucast_byte)
  show ?thesis
    by (simp add: premul_def widen_eq unat_div 2)
qed

lemma premul_le: "unat (premul c a) \<le> 65535"
proof -
  have "(unat c * 257 * unat a) div 255 \<le> 16711425 div 255"
    using premul_arg_le [of c a] by (rule div_le_mono)
  then show ?thesis by (simp add: unat_premul)
qed

lemma gray_small:
  "unat ((premul r a + premul g a + premul b a) div 3) \<le> 65535"
proof -
  have "unat (premul r a + premul g a + premul b a) = unat (premul r a) + unat (premul g a) + unat (premul b a)"
    using premul_le [of r a] premul_le [of g a] premul_le [of b a]
    by (simp add: unat_word_ariths)
  then show ?thesis
    using premul_le [of r a] premul_le [of g a] premul_le [of b a]
    by (simp add: unat_div)
qed

lemma same_test: "imageWhite t c \<longleftrightarrow> sendBit t c = 1"
proof (cases c)
  case (NRGBA r g b a)
  let ?g = "(premul r a + premul g a + premul b a) div 3"
  have small: "unat ?g < 2 ^ 16" using gray_small [of r a g b] by simp
  have "unat (ucast ?g :: 16 word) = unat ?g"
    using small by (simp add: unsigned_ucast_eq take_bit_nat_eq_self)
  moreover have "unat (ucast t :: 32 word) = unat t"
    using unsigned_less [of t, where 'a = nat] by (simp add: unsigned_ucast_eq take_bit_nat_eq_self)
  ultimately show ?thesis
    by (simp add: NRGBA imageWhite_def sendBit_def word_less_nat_alt)
qed

section \<open>Setting a pixel\<close>

lemma and7: "(y::int) AND 7 = y mod 8"
proof -
  have "take_bit 3 y = y AND mask 3" by (rule take_bit_eq_mask)
  then show ?thesis by (simp add: take_bit_eq_mod mask_eq_exp_minus_1)
qed

lemma go_int_id: "- (2 ^ 63) \<le> n \<Longrightarrow> n < 2 ^ 63 \<Longrightarrow> go_int n = n"
  by (simp add: go_int_def signed_take_bit_int_eq_self)

lemma go_quot_nonneg: "0 \<le> a \<Longrightarrow> 0 < b \<Longrightarrow> go_quot a b = a div b"
  by (simp add: go_quot_def)

lemma index_in_range:
  assumes "0 \<le> x" "x < 128" "0 \<le> y" "y < 64"
  shows "go_int (1 + x + go_quot y 8 * 128) = 1 + x + (y div 8) * 128"
    and "1 \<le> 1 + x + (y div 8) * 128" and "1 + x + (y div 8) * 128 < 1025"
proof -
  have d: "0 \<le> y div 8" "y div 8 \<le> 7" using assms by simp_all
  show 2: "1 \<le> 1 + x + (y div 8) * 128" using assms d by simp
  show 3: "1 + x + (y div 8) * 128 < 1025" using assms d by simp
  show "go_int (1 + x + go_quot y 8 * 128) = 1 + x + (y div 8) * 128"
    using assms 2 3 by (simp add: go_quot_nonneg go_int_id)
qed


lemma setPixel_in_range:
  assumes "screen_ok d"
    and "0 \<le> x" "x < 128" "0 \<le> y" "y < 64" "v \<le> 1"
  shows "setPixel d x y v =
     (None, d\<lparr>buf := (buf d)[idx x y :=
        (if v = 0 then (buf d ! idx x y) AND NOT (push_bit (nat (y mod 8)) 1)
         else (buf d ! idx x y) OR push_bit (nat (y mod 8)) 1)]\<rparr>)"
proof -
  let ?i = "1 + x + (y div 8) * 128"
  have wd: "w d = 128" and hd: "h d = 64" and len: "int (length (buf d)) = 1025"
    using assms(1) by (simp_all add: screen_ok_def)
  have i1: "go_int (1 + x + go_quot y 8 * w d) = ?i"
    unfolding wd by (rule index_in_range(1) [OF assms(2-5)])
  have i2: "\<not> ?i < 0"
    using index_in_range(2) [OF assms(2-5)] by linarith
  have i3: "\<not> int (length (buf d)) \<le> ?i"
    unfolding len using index_in_range(3) [OF assms(2-5)] by linarith
  have v: "\<not> 1 < v" using assms(6) by simp
  have b: "\<not> w d \<le> x" "\<not> h d \<le> y" using assms(3,5) by (simp_all add: wd hd)
  show ?thesis
    by (simp only: setPixel_def Let_def i1 i2 i3 v b and7 idx_def if_False simp_thms) simp
qed

lemma screen_ok_update: "screen_ok d \<Longrightarrow> screen_ok (d\<lparr>buf := (buf d)[i := b]\<rparr>)"
  by (simp add: screen_ok_def)

lemma idx_lt: "0 \<le> x \<Longrightarrow> x < 128 \<Longrightarrow> 0 \<le> y \<Longrightarrow> y < 64 \<Longrightarrow> idx x y < 1025"
  using index_in_range(3) [of x y] by (simp add: idx_def)

lemma offset_unique:
  assumes h: "0 \<le> x" "x < 128" "0 \<le> x'" "x' < 128" "x + a * 128 = x' + b * 128"
  shows "x = x' \<and> a = (b::int)"
proof -
  have "a = b"
  proof (rule ccontr)
    assume "a \<noteq> b"
    then consider "a + 1 \<le> b" | "b + 1 \<le> a" by linarith
    then show False
    proof cases
      case 1
      then have "(a + 1) * 128 \<le> b * 128" by (simp only: mult_le_cancel_right) simp
      with h show False by (simp add: algebra_simps)
    next
      case 2
      then have "(b + 1) * 128 \<le> a * 128" by (simp only: mult_le_cancel_right) simp
      with h show False by (simp add: algebra_simps)
    qed
  qed
  with h show ?thesis by simp
qed

lemma idx_inj:
  assumes "0 \<le> x" "x < 128" "0 \<le> y" "0 \<le> x'" "x' < 128" "0 \<le> y'" "idx x y = idx x' y'"
  shows "x = x' \<and> y div 8 = y' div 8"
proof -
  have a: "0 \<le> y div 8" "0 \<le> y' div 8" using assms by simp_all
  have "1 + x + (y div 8) * 128 = 1 + x' + (y' div 8) * 128"
    using assms a by (simp add: idx_def)
  then have "x + (y div 8) * 128 = x' + (y' div 8) * 128" by simp
  with assms show ?thesis by (intro offset_unique) simp_all
qed

lemma pixelBit_eq:
  assumes "w d = 128" "0 \<le> y"
  shows "pixelBit d x y = bit (buf d ! idx x y) (nat (y mod 8))"
  using assms by (simp add: pixelBit_def idx_def and7 go_quot_nonneg)

lemma same_point:
  assumes "0 \<le> y" "0 \<le> y'" "y div 8 = y' div 8" "nat (y mod 8) = nat (y' mod 8)"
  shows "y = (y'::int)"
proof -
  have "y mod 8 = y' mod 8" using assms by simp
  with assms(3) show ?thesis by (metis mult_div_mod_eq)
qed

lemma bit_set: "bit ((b::byte) OR 2 ^ n) k \<longleftrightarrow> bit b k \<or> (k = n \<and> n < 8)"
  by (auto simp add: bit_simps)

lemma bit_clear: "bit ((b::byte) AND NOT (2 ^ n)) k \<longleftrightarrow> bit b k \<and> k \<noteq> n"
  by (auto simp add: bit_simps dest: bit_imp_le_length)

lemma mod8_lt: "nat ((y::int) mod 8) < 8"
  by simp

lemma pixelBit_setPixel:
  assumes d: "screen_ok d"
    and p: "0 \<le> x" "x < 128" "0 \<le> y" "y < 64" and v: "v \<le> 1"
    and q: "0 \<le> x'" "x' < 128" "0 \<le> y'" "y' < 64"
  shows "pixelBit (snd (setPixel d x y v)) x' y' =
           (if x' = x \<and> y' = y then v \<noteq> 0 else pixelBit d x' y')"
proof -
  have lt: "idx x y < length (buf d)" using idx_lt [of x y] d p by (simp add: screen_ok_def)
  have wd: "w d = 128" using d by (simp add: screen_ok_def)
  have sp: "snd (setPixel d x y v) = d\<lparr>buf := (buf d)[idx x y :=
        (if v = 0 then (buf d ! idx x y) AND NOT (2 ^ nat (y mod 8))
         else (buf d ! idx x y) OR 2 ^ nat (y mod 8))]\<rparr>"
    by (simp add: setPixel_in_range [OF d p v])
  have pb: "pixelBit (d\<lparr>buf := bs\<rparr>) a b = bit (bs ! idx a b) (nat (b mod 8))"
    if "0 \<le> b" for bs a b
    using that wd by (simp add: pixelBit_eq)
  have pb0: "pixelBit d a b = bit (buf d ! idx a b) (nat (b mod 8))" if "0 \<le> b" for a b
    using that wd by (simp add: pixelBit_eq)
  show ?thesis
  proof (cases "idx x' y' = idx x y")
    case True
    then have xy: "x' = x" "y' div 8 = y div 8" using idx_inj [of x' y' x y] p q by simp_all
    show ?thesis
    proof (cases "nat (y' mod 8) = nat (y mod 8)")
      case True
      then have "y' = y" using same_point [of y' y] xy p q by simp
      then show ?thesis using xy lt p
        by (simp add: sp pb bit_set bit_clear mod8_lt)
    next
      case False
      then have "y' \<noteq> y" by auto
      then show ?thesis using xy lt p q False \<open>idx x' y' = idx x y\<close>
        by (simp add: sp pb pb0 bit_set bit_clear)
    qed
  next
    case False
    then have "\<not> (x' = x \<and> y' = y)" by auto
    then show ?thesis using lt p q False
      by (auto simp add: sp pb pb0)
  qed
qed

lemma setPixel_frame:
  "w (snd (setPixel d x y v)) = w d" "h (snd (setPixel d x y v)) = h d"
  "length (buf (snd (setPixel d x y v))) = length (buf d)"
  "rotation (snd (setPixel d x y v)) = rotation d"
  "img (snd (setPixel d x y v)) = img d" "dev (snd (setPixel d x y v)) = dev d"
  "rotationState (snd (setPixel d x y v)) = rotationState d"
  "fontSize (snd (setPixel d x y v)) = fontSize d"
  "currentBold (snd (setPixel d x y v)) = currentBold d"
  by (simp_all add: setPixel_def Let_def)

lemma screen_ok_setPixel: "screen_ok d \<Longrightarrow> screen_ok (snd (setPixel d x y v))"
  by (simp add: screen_ok_def setPixel_frame)

lemma byte_restore:
  "\<not> bit (b::byte) n \<Longrightarrow> (b OR 2 ^ n) AND NOT (2 ^ n) = b"
  "bit (b::byte) n \<Longrightarrow> (b AND NOT (2 ^ n)) OR 2 ^ n = b"
  by (rule bit_eqI, auto simp add: bit_simps)+

text \<open>What \<open>setPixel\<close> does reject: a coordinate at or beyond the width or height, and a
  value above 1; the buffer stays as it is.\<close>

lemma setPixel_rejects:
  "x \<ge> w d \<or> y \<ge> h d \<Longrightarrow> setPixel d x y v = (Some OutOfBounds, d)"
  "x < w d \<Longrightarrow> y < h d \<Longrightarrow> v > 1 \<Longrightarrow> setPixel d x y v = (Some InvalidPixelValue, d)"
  by (auto simp add: setPixel_def)

text \<open>
  Claim C3 fails on the code for negative coordinates: \<open>setPixel\<close> only tests
  \<open>x >= w\<close> and \<open>y >= h\<close>. On the panel as opened, \<open>setPixel(-1, 0, 1)\<close> returns no error
  and turns the data prefix \<open>buf[0]\<close> from 0x40 into 0x41; \<open>setPixel(0, -1, 1)\<close> returns no
  error and sets bit 7 of \<open>buf[1]\<close>; \<open>setPixel(-2, 0, 1)\<close> indexes the slice at -1 and
  panics.
\<close>

theorem setPixel_negative_not_rejected:
  "setPixel panel0 (- 1) 0 1 = (None, panel0\<lparr>buf := 0x41 # replicate 1024 0\<rparr>) \<and>
   fst (setPixel panel0 0 (- 1) 1) = None \<and>
   buf (snd (setPixel panel0 0 (- 1) 1)) ! 1 = 0x80 \<and>
   fst (setPixel panel0 (- 2) 0 1) = Some IndexPanic"
  by (simp add: setPixel_def panel0_def go_int_def go_quot_def)

text \<open>
  Claim C6, as stated, fails: \<open>setPixel\<close> assigns the bit. On the blank panel the bit of
  \<open>(0, 0)\<close> is 0; after \<open>setPixel(0, 0, 0)\<close> and \<open>setPixel(0, 0, 1)\<close> it is 1.
\<close>

theorem setPixel_roundtrip_counterexample:
  "\<not> pixelBit panel0 0 0 \<and> pixelBit (snd (setPixel (snd (setPixel panel0 0 0 0)) 0 0 1)) 0 0"
  by (simp add: pixelBit_def setPixel_def panel0_def go_int_def go_quot_def)

text \<open>
  Claim C6, amended. For an in-range point and \<open>v\<close> in \<open>{0, 1}\<close>, \<open>setPixel(x, y, v)\<close>
  followed by \<open>setPixel(x, y, 1 - v)\<close> succeeds twice, leaves the addressed bit equal to
  \<open>1 - v\<close> and every other bit of the screen as it was; when the bit was \<open>1 - v\<close> before
  the first call, the driver state is restored as a whole.
\<close>

theorem setPixel_then_opposite:
  assumes "screen_ok d" "0 \<le> x" "x < 128" "0 \<le> y" "y < 64" "v = 0 \<or> v = 1"
  shows "fst (setPixel d x y v) = None \<and>
         fst (setPixel (snd (setPixel d x y v)) x y (1 - v)) = None \<and>
         pixelBit (snd (setPixel (snd (setPixel d x y v)) x y (1 - v))) x y = (v = 0) \<and>
         (\<forall>x' y'. 0 \<le> x' \<and> x' < 128 \<and> 0 \<le> y' \<and> y' < 64 \<and> (x' \<noteq> x \<or> y' \<noteq> y) \<longrightarrow>
            pixelBit (snd (setPixel (snd (setPixel d x y v)) x y (1 - v))) x' y' = pixelBit d x' y') \<and>
         (pixelBit d x y = (v = 0) \<longrightarrow>
            snd (setPixel (snd (setPixel d x y v)) x y (1 - v)) = d)"
proof -
  let ?d1 = "snd (setPixel d x y v)"
  let ?d2 = "snd (setPixel ?d1 x y (1 - v))"
  have v: "v \<le> 1" "1 - v \<le> 1" using assms(6) by auto
  have ok1: "screen_ok ?d1" using assms(1) by (rule screen_ok_setPixel)
  have e1: "fst (setPixel d x y v) = None"
    using assms v by (simp add: setPixel_in_range)
  have e2: "fst (setPixel ?d1 x y (1 - v)) = None"
    using assms v ok1 by (simp add: setPixel_in_range)
  have here: "pixelBit ?d2 x y = (v = 0)"
    using assms v ok1 by (auto simp add: pixelBit_setPixel)
  have others: "pixelBit ?d2 x' y' = pixelBit d x' y'"
    if "0 \<le> x'" "x' < 128" "0 \<le> y'" "y' < 64" "x' \<noteq> x \<or> y' \<noteq> y" for x' y'
    using assms v ok1 that by (auto simp add: pixelBit_setPixel)
  have restored: "?d2 = d" if "pixelBit d x y = (v = 0)"
  proof -
    have lt: "idx x y < length (buf d)" using idx_lt [of x y] assms by (simp add: screen_ok_def)
    have b: "bit (buf d ! idx x y) (nat (y mod 8)) = (v = 0)"
      using that assms by (simp add: pixelBit_eq screen_ok_def)
    show ?thesis
      using assms b lt
      by (auto simp add: setPixel_in_range screen_ok_update byte_restore)
  qed
  show ?thesis using e1 e2 here others restored by blast
qed

theorem setPixel_then_opposite_witness:
  "pixelBit (snd (setPixel (snd (setPixel panel0 3 10 1)) 3 10 (1 - 1))) 3 10 = ((1::byte) = 0) \<and>
   snd (setPixel (snd (setPixel panel0 3 10 1)) 3 10 (1 - 1)) = panel0"
proof -
  have ok: "screen_ok panel0" by (simp add: screen_ok_def panel0_def)
  have b: "pixelBit panel0 3 10 = ((1::byte) = 0)"
    by (simp add: pixelBit_def panel0_def go_quot_def)
  show ?thesis
    using setPixel_then_opposite [OF ok, of 3 10 1] b by simp
qed

section \<open>Flushing the canvas\<close>

lemma devWrite_cases:
  "devWrite dv bs = (None, dv\<lparr>attempts := attempts dv + 1, written := written dv @ [bs]\<rparr>)
   \<or> devWrite dv bs = (Some IOFailure, dv\<lparr>attempts := attempts dv + 1\<rparr>)"
  by (simp add: devWrite_def)

lemma draw_frame:
  "buf (snd (draw d)) = buf d" "img (snd (draw d)) = img d" "w (snd (draw d)) = w d"
  "h (snd (draw d)) = h d" "rotation (snd (draw d)) = rotation d"
  "rotationState (snd (draw d)) = rotationState d" "fontSize (snd (draw d)) = fontSize d"
  "currentBold (snd (draw d)) = currentBold d"
  by (simp_all add: draw_def devWrite_def split: prod.splits option.splits)

lemma clearFrom_eq: "i \<le> length bs \<Longrightarrow> clearFrom bs i = take i bs @ replicate (length bs - i) 0"
proof (induction bs i rule: clearFrom.induct)
  case (1 bs i)
  show ?case
  proof (cases "i < length bs")
    case True
    have "clearFrom bs i = clearFrom (bs[i := 0]) (i + 1)"
      using True by (subst clearFrom.simps) simp
    also have "\<dots> = take (i + 1) (bs[i := 0]) @ replicate (length bs - (i + 1)) 0"
      using True "1.IH" by simp
    also have "take (i + 1) (bs[i := 0]) = take i bs @ [0]"
      using True by (simp add: take_Suc_conv_app_nth)
    also have "(take i bs @ [0]) @ replicate (length bs - (i + 1)) 0
        = take i bs @ replicate (length bs - i) 0"
      using True by (simp add: replicate_append_same Suc_diff_Suc flip: replicate_Suc)
    finally show ?thesis .
  next
    case False
    with "1.prems" show ?thesis by (subst clearFrom.simps) simp
  qed
qed

lemma Clear_frame:
  "buf (snd (Clear d)) = take 1 (buf d) @ replicate (length (buf d) - 1) 0"
  "img (snd (Clear d)) = (if rotation d = 90 \<or> rotation d = 270 then NewNRGBA 64 128 else NewNRGBA 128 64)"
  "w (snd (Clear d)) = w d" "h (snd (Clear d)) = h d" "rotation (snd (Clear d)) = rotation d"
  "rotationState (snd (Clear d)) = rotationState d" "fontSize (snd (Clear d)) = fontSize d"
  "currentBold (snd (Clear d)) = currentBold d"
  if "buf d \<noteq> []"
  using that by (simp_all add: Clear_def Let_def draw_frame clearFrom_eq Suc_leI)




lemma only_buf_refl: "only_buf d d"
  by (simp add: only_buf_def)

lemma only_buf_trans: "only_buf d d' \<Longrightarrow> only_buf d' d'' \<Longrightarrow> only_buf d d''"
  by (cases d, cases d', cases d'') (simp add: only_buf_def)

lemma only_buf_setPixel: "only_buf d (snd (setPixel d x y v))"
  by (simp add: only_buf_def setPixel_def Let_def)

lemma only_buf_sendCol: "only_buf d (snd (sendCol d thr i imgI j imgY endY))"
proof (induction d thr i imgI j imgY endY rule: sendCol.induct)
  case (1 d thr i imgI j imgY endY)
  show ?case
  proof (cases "j < endY")
    case False
    then show ?thesis by (subst sendCol.simps) (simp add: only_buf_refl)
  next
    case True
    obtain r d1 where sp: "setPixel d i j (sendBit thr (At (img d) imgI imgY)) = (r, d1)"
      by (cases "setPixel d i j (sendBit thr (At (img d) imgI imgY))")
    have o1: "only_buf d d1" using only_buf_setPixel [of d i j "sendBit thr (At (img d) imgI imgY)"] sp by simp
    show ?thesis
    proof (cases r)
      case (Some e)
      then show ?thesis using True sp o1 by (subst sendCol.simps) simp
    next
      case None
      have "only_buf d1 (snd (sendCol d1 thr i imgI (j + 1) (imgY + 1) endY))"
        using "1.IH" [OF True sp [symmetric] None] .
      with o1 have "only_buf d (snd (sendCol d1 thr i imgI (j + 1) (imgY + 1) endY))"
        by (rule only_buf_trans)
      then show ?thesis using True sp None by (subst sendCol.simps) simp
    qed
  qed
qed


lemma only_buf_sendCols: "only_buf d (snd (sendCols d thr i imgI endX endY))"
proof (induction d thr i imgI endX endY rule: sendCols.induct)
  case (1 d thr i imgI endX endY)
  show ?case
  proof (cases "i < endX")
    case False
    then show ?thesis by (subst sendCols.simps) (simp add: only_buf_refl)
  next
    case True
    obtain r d1 where sc: "sendCol d thr i imgI 0 0 endY = (r, d1)"
      by (cases "sendCol d thr i imgI 0 0 endY")
    have o1: "only_buf d d1" using only_buf_sendCol [of d thr i imgI 0 0 endY] sc by simp
    show ?thesis
    proof (cases r)
      case (Some e)
      then show ?thesis using True sc o1 by (subst sendCols.simps) simp
    next
      case None
      have "only_buf d1 (snd (sendCols d1 thr (i + 1) (imgI + 1) endX endY))"
        using "1.IH" [OF True sc [symmetric] None] .
      with o1 have "only_buf d (snd (sendCols d1 thr (i + 1) (imgI + 1) endX endY))"
        by (rule only_buf_trans)
      then show ?thesis using True sc None by (subst sendCols.simps) simp
    qed
  qed
qed

lemma only_buf_fields:
  assumes "only_buf d d'"
  shows "img d' = img d" "rotationState d' = rotationState d" "rotation d' = rotation d"
    "w d' = w d" "h d' = h d" "fontSize d' = fontSize d" "currentBold d' = currentBold d"
    "dev d' = dev d"
  using assms by (cases d, cases d', simp add: only_buf_def)+

lemma Send_only_buf:
  "\<exists>d2. only_buf (applyRotation L d) d2 \<and>
     (snd (Send L d) = d2 \<or> snd (Send L d) = snd (draw d2))"
proof -
  let ?d = "applyRotation L d"
  let ?endX = "if dx (img ?d) \<ge> w ?d then w ?d else dx (img ?d)"
  let ?endY = "if dy (img ?d) \<ge> h ?d then h ?d else dy (img ?d)"
  obtain r d2 where sc: "sendCols ?d (getDynamicThreshold ?d) 0 0 ?endX ?endY = (r, d2)"
    by (cases "sendCols ?d (getDynamicThreshold ?d) 0 0 ?endX ?endY")
  have o: "only_buf ?d d2"
    using only_buf_sendCols [of ?d "getDynamicThreshold ?d" 0 0 ?endX ?endY] sc by simp
  have "Send L d = (case r of Some e \<Rightarrow> (Some e, d2) | None \<Rightarrow> draw d2)"
    unfolding Send_def Let_def sc by simp
  then have "snd (Send L d) = d2 \<or> snd (Send L d) = snd (draw d2)"
    by (cases r) simp_all
  with o show ?thesis by blast
qed

lemma Send_canvas:
  "img (snd (Send L d)) = img (applyRotation L d)"
  "rotationState (snd (Send L d)) = rotationState (applyRotation L d)"
  "rotation (snd (Send L d)) = rotation d"
  "w (snd (Send L d)) = w d" "h (snd (Send L d)) = h d"
  "fontSize (snd (Send L d)) = fontSize d"
proof -
  obtain d2 where o: "only_buf (applyRotation L d) d2"
    and s: "snd (Send L d) = d2 \<or> snd (Send L d) = snd (draw d2)"
    using Send_only_buf by blast
  have a: "rotation (applyRotation L d) = rotation d" "w (applyRotation L d) = w d"
    "h (applyRotation L d) = h d" "fontSize (applyRotation L d) = fontSize d"
    by (simp_all add: applyRotation_def)
  note f = only_buf_fields [OF o]
  show "img (snd (Send L d)) = img (applyRotation L d)"
    using s f(1) by (auto simp add: draw_frame)
  show "rotationState (snd (Send L d)) = rotationState (applyRotation L d)"
    using s f(2) by (auto simp add: draw_frame)
  show "rotation (snd (Send L d)) = rotation d"
    using s f(3) a(1) by (auto simp add: draw_frame)
  show "w (snd (Send L d)) = w d"
    using s f(4) a(2) by (auto simp add: draw_frame)
  show "h (snd (Send L d)) = h d"
    using s f(5) a(3) by (auto simp add: draw_frame)
  show "fontSize (snd (Send L d)) = fontSize d"
    using s f(6) a(4) by (auto simp add: draw_frame)
qed

lemma sendBit_blank: "sendBit thr (NRGBA 0 0 0 0) = 0"
  by (simp add: sendBit_def premul_def)

lemma setPixel_zero_id:
  assumes "screen_ok d" "0 \<le> x" "x < 128" "0 \<le> y" "y < 64" "buf d ! idx x y = 0"
  shows "setPixel d x y 0 = (None, d)"
proof -
  have "(buf d)[idx x y := 0] = buf d"
    using assms(6) by (metis list_update_id)
  then show ?thesis using assms by (simp add: setPixel_in_range)
qed

lemma data_zero_nth:
  assumes z: "drop 1 bs = replicate n 0" and k: "1 \<le> k" "k < length bs"
  shows "bs ! k = (0::byte)"
proof -
  have n: "n = length bs - 1"
    using arg_cong [OF z, of length] by simp
  have "drop 1 bs ! (k - 1) = bs ! (1 + (k - 1))"
    using k by (intro nth_drop) simp
  then have "bs ! k = drop 1 bs ! (k - 1)" using k by simp
  also have "\<dots> = replicate n 0 ! (k - 1)" by (simp only: z)
  also have "\<dots> = 0" using k n by simp
  finally show ?thesis .
qed

lemma idx_ge1: "0 \<le> x \<Longrightarrow> 0 \<le> y \<Longrightarrow> 1 \<le> idx x y"
proof -
  assume a: "0 \<le> x" "0 \<le> y"
  then have "0 \<le> y div 8" by simp
  then have "0 \<le> (y div 8) * 128" by simp
  with a have "1 \<le> 1 + x + (y div 8) * 128" by linarith
  then show ?thesis by (simp add: idx_def)
qed

lemma sendCol_blank:
  assumes "screen_ok d" "drop 1 (buf d) = replicate 1024 0"
    and "\<And>x y. At (img d) x y = NRGBA 0 0 0 0"
    and "0 \<le> i" "i < 128" "0 \<le> j" "endY \<le> 64"
  shows "sendCol d thr i imgI j imgY endY = (None, d)"
  using assms
proof (induction d thr i imgI j imgY endY rule: sendCol.induct)
  case (1 d thr i imgI j imgY endY)
  show ?case
  proof (cases "j < endY")
    case False
    then show ?thesis by (subst sendCol.simps) simp
  next
    case True
    have len: "length (buf d) = 1025" using "1.prems"(1) by (simp add: screen_ok_def)
    have j64: "j < 64" using True "1.prems"(7) by simp
    have "idx i j < 1025" using idx_lt [of i j] "1.prems" j64 by simp
    moreover have "1 \<le> idx i j"
      using "1.prems" by (intro idx_ge1)
    ultimately have z: "buf d ! idx i j = 0"
      using data_zero_nth [OF "1.prems"(2), of "idx i j"] len by simp
    have sp: "setPixel d i j (sendBit thr (At (img d) imgI imgY)) = (None, d)"
      using setPixel_zero_id [of d i j] "1.prems" j64 z by (simp add: sendBit_blank)
    have "sendCol d thr i imgI (j + 1) (imgY + 1) endY = (None, d)"
      using "1.IH" [OF True sp [symmetric] refl] "1.prems" by simp
    then show ?thesis using True sp by (subst sendCol.simps) simp
  qed
qed

lemma sendCols_blank:
  assumes "screen_ok d" "drop 1 (buf d) = replicate 1024 0"
    and "\<And>x y. At (img d) x y = NRGBA 0 0 0 0"
    and "0 \<le> i" "endX \<le> 128" "endY \<le> 64"
  shows "sendCols d thr i imgI endX endY = (None, d)"
  using assms
proof (induction d thr i imgI endX endY rule: sendCols.induct)
  case (1 d thr i imgI endX endY)
  show ?case
  proof (cases "i < endX")
    case False
    then show ?thesis by (subst sendCols.simps) simp
  next
    case True
    have sc: "sendCol d thr i imgI 0 0 endY = (None, d)"
      using "1.prems" True by (intro sendCol_blank) simp_all
    have "sendCols d thr (i + 1) (imgI + 1) endX endY = (None, d)"
      using "1.IH" [OF True sc [symmetric] refl] "1.prems" by simp
    then show ?thesis using True sc by (subst sendCols.simps) simp
  qed
qed


lemma Clear_fields:
  "w (snd (Clear d)) = w d" "h (snd (Clear d)) = h d" "rotation (snd (Clear d)) = rotation d"
  "rotationState (snd (Clear d)) = rotationState d" "fontSize (snd (Clear d)) = fontSize d"
  "currentBold (snd (Clear d)) = currentBold d"
  "img (snd (Clear d)) =
     (if rotation d = 90 \<or> rotation d = 270 then NewNRGBA 64 128 else NewNRGBA 128 64)"
  "length (buf (snd (Clear d))) = length (buf d)"
proof -
  have len: "length (clearFrom bs i) = length bs" for bs :: "byte list" and i
    by (induction bs i rule: clearFrom.induct) (subst clearFrom.simps, simp)
  show "w (snd (Clear d)) = w d" "h (snd (Clear d)) = h d"
    "rotation (snd (Clear d)) = rotation d"
    "rotationState (snd (Clear d)) = rotationState d" "fontSize (snd (Clear d)) = fontSize d"
    "currentBold (snd (Clear d)) = currentBold d"
    "img (snd (Clear d)) =
       (if rotation d = 90 \<or> rotation d = 270 then NewNRGBA 64 128 else NewNRGBA 128 64)"
    "length (buf (snd (Clear d))) = length (buf d)"
    by (simp_all add: Clear_def Let_def draw_frame len)
qed

lemma At_blank: "At (NewNRGBA a b) x y = NRGBA 0 0 0 0"
  by (simp add: At_def NewNRGBA_def)

lemma Clear_then_Send:
  assumes "panel_ok d"
  shows "buf (snd (Send L (snd (Clear d)))) = take 1 (buf d) @ replicate 1024 0"
    and "panel_ok (snd (Send L (snd (Clear d))))"
proof -
  let ?c = "snd (Clear d)"
  have d: "w d = 128" "h d = 64" "length (buf d) = 1025" "rotation d = 0"
    using assms by (simp_all add: panel_ok_def screen_ok_def)
  have ne: "buf d \<noteq> []" using d(3) by auto
  have cb: "buf ?c = take 1 (buf d) @ replicate 1024 0"
    using Clear_frame(1) [OF ne] d(3) by simp
  have ci: "img ?c = NewNRGBA 128 64" using d(4) by (simp add: Clear_fields)
  have cf: "w ?c = 128" "h ?c = 64" "rotation ?c = 0" "length (buf ?c) = 1025"
    using d by (simp_all add: Clear_fields)
  have ok: "screen_ok ?c" using cf by (simp add: screen_ok_def)
  have ar: "applyRotation L ?c = ?c" using cf(3) by (simp add: applyRotation_def)
  have dz: "drop 1 (buf ?c) = replicate 1024 0" using d(3) by (simp add: cb)
  have blank: "At (img ?c) x y = NRGBA 0 0 0 0" for x y by (simp add: ci At_blank)
  have sc: "sendCols ?c (getDynamicThreshold ?c) 0 0 128 64 = (None, ?c)"
    using ok dz blank by (intro sendCols_blank) simp_all
  have dxy: "dx (img ?c) = 128" "dy (img ?c) = 64" by (simp_all add: ci NewNRGBA_def)
  have S: "Send L ?c = draw ?c"
    unfolding Send_def Let_def ar dxy cf by (simp add: sc)
  show "buf (snd (Send L ?c)) = take 1 (buf d) @ replicate 1024 0"
    by (simp add: S draw_frame cb)
  show "panel_ok (snd (Send L ?c))"
    using cf by (simp add: S draw_frame panel_ok_def screen_ok_def)
qed

lemma drawPage_asleep: "pageSleepCount s < 0 \<Longrightarrow> drawPage L W s = s"
  by (simp add: drawPage_def)

lemma heartbeats_asleep: "pageSleepCount s < 0 \<Longrightarrow> heartbeats L Ws s = s"
  by (induction Ws) (simp_all add: drawPage_asleep)

lemma New_fields:
  "rotationState (New d r) = False" "rotation (New d r) = r"
  "img (New d r) = (if r = 90 \<or> r = 270 then NewNRGBA 64 128 else NewNRGBA 128 64)"
  "w (New d r) = w d" "h (New d r) = h d" "length (buf (New d r)) = length (buf d)"
  "fontSize (New d r) = fontSize d" "currentBold (New d r) = currentBold d"
  by (simp_all add: New_def Let_def Clear_fields)

lemma applyRotation_idem: "applyRotation L (applyRotation L d) = applyRotation L d"
  by (simp add: applyRotation_def)

text \<open>
  Claim C9. \<open>Send\<close> applies the configured quarter or half turn once: with the flag
  down and a rotation of 90, 180 or 270 it replaces the image by the turned one and raises
  the flag; with the flag up it leaves the image alone, so a second \<open>Send\<close> of the same
  canvas does not turn it again; \<open>New\<close> lowers the flag and allocates a fresh canvas, which
  the next \<open>Send\<close> turns again.
\<close>

theorem Send_rotates_once:
  "(rotationState d = False \<and> rotation d = 90 \<longrightarrow>
      img (snd (Send L d)) = Rotate90 L (img d) \<and> rotationState (snd (Send L d))) \<and>
   (rotationState d = False \<and> rotation d = 180 \<longrightarrow>
      img (snd (Send L d)) = Rotate180 L (img d) \<and> rotationState (snd (Send L d))) \<and>
   (rotationState d = False \<and> rotation d = 270 \<longrightarrow>
      img (snd (Send L d)) = Rotate270 L (img d) \<and> rotationState (snd (Send L d))) \<and>
   (rotationState d \<longrightarrow>
      img (snd (Send L d)) = img d \<and> rotationState (snd (Send L d))) \<and>
   img (snd (Send L (snd (Send L d)))) = img (snd (Send L d)) \<and>
   rotationState (New d r) = False \<and> rotation (New d r) = r \<and>
   img (New d r) = (if r = 90 \<or> r = 270 then NewNRGBA 64 128 else NewNRGBA 128 64)"
proof -
  have r90: "rotationState d = False \<and> rotation d = 90 \<longrightarrow>
      img (snd (Send L d)) = Rotate90 L (img d) \<and> rotationState (snd (Send L d))"
    by (simp add: Send_canvas applyRotation_def)
  have r180: "rotationState d = False \<and> rotation d = 180 \<longrightarrow>
      img (snd (Send L d)) = Rotate180 L (img d) \<and> rotationState (snd (Send L d))"
    by (simp add: Send_canvas applyRotation_def)
  have r270: "rotationState d = False \<and> rotation d = 270 \<longrightarrow>
      img (snd (Send L d)) = Rotate270 L (img d) \<and> rotationState (snd (Send L d))"
    by (simp add: Send_canvas applyRotation_def)
  have kept: "rotationState d \<longrightarrow>
      img (snd (Send L d)) = img d \<and> rotationState (snd (Send L d))"
    by (simp add: Send_canvas applyRotation_def)
  have "applyRotation L (snd (Send L d)) = snd (Send L d)"
    using Send_canvas(2,3) [of L d]
    by (cases "rotationState d") (auto simp add: applyRotation_def)
  then have twice: "img (snd (Send L (snd (Send L d)))) = img (snd (Send L d))"
    by (simp add: Send_canvas(1) [of L "snd (Send L d)"])
  have new: "rotationState (New d r) = False" "rotation (New d r) = r"
    "img (New d r) = (if r = 90 \<or> r = 270 then NewNRGBA 64 128 else NewNRGBA 128 64)"
    by (simp_all add: New_fields)
  show ?thesis
    by (intro conjI) (fact r90 r180 r270 kept twice new)+
qed

theorem Send_rotates_once_witness:
  "img (snd (Send lib0 (New panel0 90))) = Rotate90 lib0 (img (New panel0 90)) \<and>
   rotationState (snd (Send lib0 (New panel0 90))) \<and>
   img (snd (Send lib0 (snd (Send lib0 (New panel0 90))))) = Rotate90 lib0 (img (New panel0 90)) \<and>
   rotationState (New (snd (Send lib0 (New panel0 90))) 90) = False"
  using Send_rotates_once [where d = "New panel0 90" and L = lib0 and r = 90]
    Send_rotates_once [where d = panel0 and L = lib0 and r = 90]
    Send_rotates_once [where d = "snd (Send lib0 (New panel0 90))" and L = lib0 and r = 90]
  by simp

section \<open>The sleep countdown\<close>

text \<open>
  Claim C4. On the panel as \<open>main\<close> uses it, with no draw in progress and the shutdown
  flag down, a \<open>drawPage\<close> call at countdown 0 leaves the data region of the buffer all
  zero (the framing byte stays) and sets the countdown to -1; every further run of
  heartbeat \<open>drawPage\<close> calls changes nothing at all, so the clearing happens once; and
  each button handler sets the countdown back to \<open>pageSleep\<close> and lowers
  \<open>staticDrawn\<close>.
\<close>

theorem sleep_clears_once_then_idle:
  assumes "panel_ok (oled s)" "\<not> drawing s" "\<not> shutdownFlag s" "pageSleepCount s = 0"
  shows "buf (oled (drawPage L W s)) = take 1 (buf (oled s)) @ replicate 1024 0 \<and>
         pageSleepCount (drawPage L W s) = - 1 \<and>
         heartbeats L Ws (drawPage L W s) = drawPage L W s \<and>
         pageSleepCount (handleK1 (drawPage L W s)) = pageSleep \<and>
         \<not> staticDrawn (handleK1 (drawPage L W s)) \<and>
         pageSleepCount (handleK2 (drawPage L W s)) = pageSleep \<and>
         \<not> staticDrawn (handleK2 (drawPage L W s)) \<and>
         pageSleepCount (handleK3 (drawPage L W s)) = pageSleep \<and>
         \<not> staticDrawn (handleK3 (drawPage L W s))"
proof -
  have dp: "drawPage L W s =
      s\<lparr>oled := snd (Send L (snd (Clear (oled s)))), staticDrawn := False,
        lastPageIndex := - 1, pageSleepCount := - 1\<rparr>"
    using assms(2-4) by (simp add: drawPage_def Let_def)
  have b: "buf (oled (drawPage L W s)) = take 1 (buf (oled s)) @ replicate 1024 0"
    by (simp add: dp Clear_then_Send(1) [OF assms(1)])
  have c: "pageSleepCount (drawPage L W s) = - 1" by (simp add: dp)
  have h: "heartbeats L Ws (drawPage L W s) = drawPage L W s"
    by (rule heartbeats_asleep) (simp add: c)
  have k: "pageSleepCount (handleK1 t) = pageSleep" "\<not> staticDrawn (handleK1 t)"
    "pageSleepCount (handleK2 t) = pageSleep" "\<not> staticDrawn (handleK2 t)"
    "pageSleepCount (handleK3 t) = pageSleep" "\<not> staticDrawn (handleK3 t)" for t
    by (simp_all add: handler_defs)
  show ?thesis using b c h k by simp
qed

theorem sleep_clears_once_then_idle_witness:
  "buf (oled (drawPage lib0 world0 ((startApp panel0)\<lparr>pageSleepCount := 0\<rparr>)))
     = take 1 (buf panel0) @ replicate 1024 0 \<and>
   pageSleepCount (drawPage lib0 world0 ((startApp panel0)\<lparr>pageSleepCount := 0\<rparr>)) = - 1 \<and>
   heartbeats lib0 [world0, world0] (drawPage lib0 world0 ((startApp panel0)\<lparr>pageSleepCount := 0\<rparr>))
     = drawPage lib0 world0 ((startApp panel0)\<lparr>pageSleepCount := 0\<rparr>) \<and>
   pageSleepCount (handleK1 (drawPage lib0 world0 ((startApp panel0)\<lparr>pageSleepCount := 0\<rparr>)))
     = pageSleep"
proof -
  have a: "panel_ok (oled ((startApp panel0)\<lparr>pageSleepCount := 0\<rparr>))"
    "\<not> drawing ((startApp panel0)\<lparr>pageSleepCount := 0\<rparr>)"
    "\<not> shutdownFlag ((startApp panel0)\<lparr>pageSleepCount := 0\<rparr>)"
    "pageSleepCount ((startApp panel0)\<lparr>pageSleepCount := 0\<rparr>) = 0"
    by (simp_all add: startApp_def panel_ok_def screen_ok_def panel0_def)
  have o: "oled ((startApp panel0)\<lparr>pageSleepCount := 0\<rparr>) = panel0"
    by (simp add: startApp_def)
  show ?thesis
    using sleep_clears_once_then_idle [OF a, of lib0 world0 "[world0, world0]"]
    by (simp only: o)
qed

section \<open>The year progress bar\<close>

text \<open>The rounding function on known values: 0.1 becomes the nearest binary64 number,
  small integers are exact, and a tie goes to the even neighbour.\<close>

lemma float64_examples:
  "float64 (1 / 10) = 3602879701896397 / 36028797018963968"
  "float64 1 = 1" "float64 (- 3) = - 3"
  "float64 (2 ^ 53 + 1) = 2 ^ 53" "float64 (2 ^ 53 + 3) = 2 ^ 53 + 4"
  by code_simp+

lemma yearPercent_shift: "yearPercent now start end' = yearPercent (now - start) 0 (end' - start)"
  by (simp add: yearPercent_def)

lemma float64_0: "float64 0 = 0"
  by (simp add: float64_def)

lemma yearPercent_start: "yearPercent start start end' = 0"
  by (simp add: yearPercent_def float64_0)

lemma bar_start: "yearBarLen 0 = 0"
  by (simp add: yearBarLen_def float64_0 float_to_int_def)

lemma format_zero: "format_f1 0 = ''0.0''"
  by code_simp

lemma yearBarLen_range: "0 \<le> yearBarLen p \<and> yearBarLen p \<le> 10"
  by (simp add: yearBarLen_def Let_def)

lemma yearBarLen_clamp:
  "yearBarLen p = max 0 (min 10 (float_to_int (float64 (p / 10))))"
  by (simp add: yearBarLen_def Let_def max_def min_def)

lemma end_365: "getYearProgressText 31535999 0 31536000 = Repeat filledCell 9 @ Repeat emptyCell 1 @ ''100.0%''"
  by code_simp

lemma end_366: "getYearProgressText 31622399 0 31622400 = Repeat filledCell 9 @ Repeat emptyCell 1 @ ''100.0%''"
  by code_simp

text \<open>
  Claim C7, as stated, fails at the end of the year: one second before 2027 (UTC) the
  elapsed share is 99.9999968 percent, a tenth of it truncates to 9, and the text rounds
  to "100.0%". The bar has 9 filled cells, not 10.
\<close>

theorem year_end_nine_cells_counterexample:
  "getYearProgressText 1798761599 1767225600 1798761600 =
     Repeat filledCell 9 @ Repeat emptyCell 1 @ ''100.0%'' \<and>
   yearBarLen (yearPercent 1798761599 1767225600 1798761600) = 9"
  by code_simp

text \<open>
  Claim C7, amended. The text is a bar of ten cells, the filled ones first, followed by
  the percentage with one decimal and a percent sign; the number of filled cells is the
  float64 quotient of the percentage by 10, truncated and clamped to 0..10. At the start
  of the year the bar has no filled cell and the text is "0.0%"; one second before the
  next year, for a year of 365 or 366 days, it has 9 filled cells and the text "100.0%".
\<close>

theorem year_progress_text:
  "getYearProgressText now start end' =
     Repeat filledCell (yearBarLen (yearPercent now start end')) @
     Repeat emptyCell (10 - yearBarLen (yearPercent now start end')) @
     format_f1 (yearPercent now start end') @ ''%'' \<and>
   yearBarLen (yearPercent now start end') =
     max 0 (min 10 (float_to_int (float64 (yearPercent now start end' / 10)))) \<and>
   (start < end' \<longrightarrow> getYearProgressText start start end' = Repeat emptyCell 10 @ ''0.0%'') \<and>
   (end' - start = 31536000 \<or> end' - start = 31622400 \<longrightarrow>
      getYearProgressText (end' - 1) start end' =
        Repeat filledCell 9 @ Repeat emptyCell 1 @ ''100.0%'')"
proof -
  have shape: "getYearProgressText now start end' =
     Repeat filledCell (yearBarLen (yearPercent now start end')) @
     Repeat emptyCell (10 - yearBarLen (yearPercent now start end')) @
     format_f1 (yearPercent now start end') @ ''%''"
    by (simp add: getYearProgressText_def Let_def)
  have first: "getYearProgressText start start end' = Repeat emptyCell 10 @ ''0.0%''"
    by (simp add: getYearProgressText_def Let_def yearPercent_start bar_start format_zero Repeat_def)
  have shift: "getYearProgressText (end' - 1) start end'
      = getYearProgressText (end' - start - 1) 0 (end' - start)"
  proof -
    have "end' - 1 - start = end' - start - 1" by simp
    then have "yearPercent (end' - 1) start end' = yearPercent (end' - start - 1) 0 (end' - start)"
      by (simp only: yearPercent_def diff_zero)
    then show ?thesis
      by (simp only: getYearProgressText_def)
  qed
  have last: "getYearProgressText (end' - 1) start end' =
        Repeat filledCell 9 @ Repeat emptyCell 1 @ ''100.0%''"
    if "end' - start = 31536000 \<or> end' - start = 31622400"
    using that by (auto simp add: shift end_365 end_366)
  show ?thesis using shape yearBarLen_clamp first last by blast
qed

theorem year_progress_text_witness:
  "getYearProgressText 1767225600 1767225600 1798761600 = Repeat emptyCell 10 @ ''0.0%'' \<and>
   getYearProgressText (1798761600 - 1) 1767225600 1798761600 =
     Repeat filledCell 9 @ Repeat emptyCell 1 @ ''100.0%''"
  using year_progress_text [of 0 1767225600 1798761600]
  by simp

section \<open>The lock and the drawing flag\<close>

lemma lock_inv_boot: "lock_inv (boot d)"
  by (simp add: lock_inv_def boot_def)

lemma lock_inv_Edge:
  assumes "lock_inv c" "fire L (Edge t) c = Some c'"
  shows "lock_inv c'"
proof -
  have w: "pcs c t = Waiting" and c': "c' = c\<lparr>pcs := (pcs c)(t := Want Reset)\<rparr>"
    using assms(2) by (simp_all split: if_splits)
  have "holder c \<noteq> Some t" using assms(1) w by (auto simp add: lock_inv_def)
  then show ?thesis using assms(1) w by (auto simp add: lock_inv_def c')
qed

lemma lock_inv_Tick:
  assumes "lock_inv c" "fire L Tick c = Some c'"
  shows "lock_inv c'"
proof -
  have w: "pcs c Heartbeat = Waiting"
    and c': "c' = c\<lparr>pcs := (pcs c)(Heartbeat := Want Check)\<rparr>"
    using assms(2) by (simp_all split: if_splits)
  have "holder c \<noteq> Some Heartbeat" using assms(1) w by (auto simp add: lock_inv_def)
  then show ?thesis using assms(1) w by (auto simp add: lock_inv_def c')
qed

lemma lock_inv_Enter:
  assumes "lock_inv c" "fire L (Enter t) c = Some c'"
  shows "lock_inv c'"
proof -
  obtain sec where w: "pcs c t = Want sec" and free: "holder c = None"
    and c': "c' = c\<lparr>holder := Some t, pcs := (pcs c)(t := Holding sec)\<rparr>"
    using assms(2) by (auto split: pc.splits if_splits)
  have "\<And>t' sec'. pcs c t' \<noteq> Holding sec'"
    using assms(1) free by (auto simp add: lock_inv_def)
  then show ?thesis by (auto simp add: lock_inv_def c')
qed

lemma lock_inv_Leave:
  assumes "lock_inv c" "fire L (Leave t W) c = Some c'"
  shows "lock_inv c'"
proof -
  obtain sec where hd: "pcs c t = Holding sec"
    using assms(2) by (auto split: pc.splits)
  have holder: "holder c = Some t" using assms(1) hd by (auto simp add: lock_inv_def)
  have others: "pcs c t' \<noteq> Holding sec'" if "t' \<noteq> t" for t' sec'
    using assms(1) holder that by (auto simp add: lock_inv_def)
  show ?thesis
  proof (cases "sec = Shutdown")
    case True
    then have c': "c' = c\<lparr>shared := section_body L W t sec (shared c),
        pcs := (pcs c)(t := Exited)\<rparr>"
      using assms(2) hd by simp
    show ?thesis using holder others by (auto simp add: lock_inv_def c')
  next
    case False
    then have c': "c' = c\<lparr>shared := section_body L W t sec (shared c), holder := None,
        pcs := (pcs c)(t := next_pc sec (shared c))\<rparr>"
      using assms(2) hd by simp
    have "next_pc sec (shared c) \<noteq> Holding sec'" for sec'
      by (cases sec) simp_all
    then show ?thesis using others by (auto simp add: lock_inv_def c')
  qed
qed

lemma lock_inv_fire:
  assumes "lock_inv c" "fire L e c = Some c'"
  shows "lock_inv c'"
  using assms
  by (cases e) (blast intro: lock_inv_Edge lock_inv_Tick lock_inv_Enter lock_inv_Leave)+

lemma lock_inv_reach: "reach L (boot d) c \<Longrightarrow> lock_inv c"
proof (induction rule: reach.induct)
  case reach_start
  show ?case by (rule lock_inv_boot)
next
  case (reach_step c e c')
  then show ?case by (blast intro: lock_inv_fire)
qed

lemma reach_run: "reach L c0 c \<Longrightarrow> run L es c = Some c' \<Longrightarrow> reach L c0 c'"
proof (induction es arbitrary: c)
  case Nil
  then show ?case by simp
next
  case (Cons e es)
  then obtain c1 where f: "fire L e c = Some c1" and r: "run L es c1 = Some c'"
    by (auto split: option.splits)
  have "reach L c0 c1" using Cons.prems(1) f by (rule reach_step)
  then show ?case using r by (rule Cons.IH)
qed

lemma drawPage_gate: "drawing s \<or> shutdownFlag s \<Longrightarrow> drawPage L W s = s"
  by (auto simp add: drawPage_def)

lemma run_at_draw:
  "run lib0 [Tick, Enter Heartbeat, Leave Heartbeat world0, Enter Heartbeat] (boot panel0) = Some at_draw"
  by (simp add: boot_def at_draw_def startApp_def)

lemma run_after_K3:
  "run lib0 [Edge K3, Enter K3, Leave K3 world0, Enter K3, Leave K3 world0] (boot panel0) = Some after_K3"
  by (simp add: boot_def after_K3_def startApp_def handler_defs)

lemma run_after_K3_K1:
  "run lib0 [Edge K1, Enter K1, Leave K1 world0, Enter K1, Leave K1 world0] after_K3 = Some after_K3_K1"
  by (simp add: after_K3_K1_def after_K3_def startApp_def handler_defs go_rem_toggle [simplified])


lemma drawing_drawPage: "drawing (drawPage L W s) = drawing s"
  by (simp add: drawPage_def Let_def)

lemma drawing_section_body: "drawing (section_body L W t sec s) = drawing s"
proof (cases sec)
  case Handle
  then show ?thesis by (cases t) (simp_all add: handler_defs)
qed (simp_all add: resetSleepCount_def drawing_drawPage doShutdown_def Let_def)

lemma drawing_doShutdown: "drawing (doShutdown L s) = drawing s"
  by (simp add: doShutdown_def Let_def)

lemma drawing_fire: "fire L e c = Some c' \<Longrightarrow> drawing (shared c') = drawing (shared c)"
  by (cases e)
    (auto simp add: drawing_section_body drawing_doShutdown split: if_splits pc.splits)

lemma drawing_reach: "reach L (boot d) c \<Longrightarrow> \<not> drawing (shared c)"
proof (induction rule: reach.induct)
  case reach_start
  show ?case by (simp add: boot_def startApp_def)
next
  case (reach_step c e c')
  then show ?case by (simp add: drawing_fire)
qed

text \<open>
  Claim C5. \<open>drawPage\<close> returns the state as it is, the pixel buffer and the bus log
  included, when the drawing flag or the shutdown flag is up. In every configuration the
  tasks can reach from the start of \<open>main\<close>'s loop, at most one task is inside a draw
  (\<open>drawPage\<close> or \<open>doShutdown\<close>), and no task ever finds the drawing flag up.
\<close>

theorem drawPage_gate_and_exclusion:
  "(drawing s \<or> shutdownFlag s \<longrightarrow> drawPage L W s = s) \<and>
   (reach L (boot d) c \<longrightarrow>
      (\<forall>t t'. in_draw c t \<and> in_draw c t' \<longrightarrow> t = t') \<and> \<not> drawing (shared c))"
proof -
  have one: "t = t'" if r: "reach L (boot d) c" and a: "in_draw c t" and b: "in_draw c t'" for t t'
  proof -
    have i: "lock_inv c" using r by (rule lock_inv_reach)
    have "holder c = Some t" using i a by (auto simp add: lock_inv_def in_draw_def)
    moreover have "holder c = Some t'" using i b by (auto simp add: lock_inv_def in_draw_def)
    ultimately show ?thesis by simp
  qed
  show ?thesis using drawPage_gate one drawing_reach by blast
qed

theorem drawPage_gate_and_exclusion_witness:
  "drawPage lib0 world0 ((startApp panel0)\<lparr>shutdownFlag := True\<rparr>)
      = (startApp panel0)\<lparr>shutdownFlag := True\<rparr> \<and>
   drawPage lib0 world0 ((startApp panel0)\<lparr>drawing := True\<rparr>)
      = (startApp panel0)\<lparr>drawing := True\<rparr> \<and>
   in_draw at_draw Heartbeat \<and> \<not> in_draw at_draw K1 \<and> \<not> drawing (shared at_draw)"
proof -
  have r: "reach lib0 (boot panel0) at_draw"
    using reach_start run_at_draw by (rule reach_run)
  have h: "in_draw at_draw Heartbeat" by (simp add: in_draw_def at_draw_def)
  have f: "shutdownFlag ((startApp panel0)\<lparr>shutdownFlag := True\<rparr>)"
    "drawing ((startApp panel0)\<lparr>drawing := True\<rparr>)" by simp_all
  show ?thesis
    using drawPage_gate_and_exclusion
        [of "(startApp panel0)\<lparr>shutdownFlag := True\<rparr>" lib0 world0 panel0 at_draw]
      drawPage_gate_and_exclusion
        [of "(startApp panel0)\<lparr>drawing := True\<rparr>" lib0 world0 panel0 at_draw]
      r h f
    by blast
qed

text \<open>
  Claim C10, as stated, fails: a button press takes and releases the lock three times,
  in \<open>resetSleepCount\<close>, in the handler and in \<open>drawPage\<close>. After K3's handler has set
  the shutdown page with \<open>shutdownSelect = 1\<close> and before K3's \<open>drawPage\<close> runs, the whole
  K1 handler runs and sets \<open>shutdownSelect\<close> to 0: the redraw decision of the K3 press
  reads a state that another handler has changed.
\<close>

theorem press_not_atomic_counterexample:
  "run lib0 [Edge K3, Enter K3, Leave K3 world0, Enter K3, Leave K3 world0] (boot panel0)
      = Some after_K3 \<and>
   pcs after_K3 K3 = Want Draw \<and> shutdownSelect (shared after_K3) = 1 \<and>
   run lib0 [Edge K1, Enter K1, Leave K1 world0, Enter K1, Leave K1 world0] after_K3
      = Some after_K3_K1 \<and>
   pcs after_K3_K1 K3 = Want Draw \<and> shutdownSelect (shared after_K3_K1) = 0"
proof -
  have "pcs after_K3 K3 = Want Draw" "shutdownSelect (shared after_K3) = 1"
    "pcs after_K3_K1 K3 = Want Draw" "shutdownSelect (shared after_K3_K1) = 0"
    by (simp_all add: after_K3_def after_K3_K1_def startApp_def)
  with run_after_K3 run_after_K3_K1 show ?thesis by (intro conjI)
qed

text \<open>
  Claim C10, amended. Each locked section (\<open>resetSleepCount\<close>, a handler's mutation,
  \<open>drawPage\<close>, the heartbeat's read of the flag, \<open>doShutdown\<close>) runs alone: in every
  reachable configuration at most one task is inside a section and that task holds the
  lock. A task that waits for its next section does not hold the lock, and when no task
  is inside a section (and the process has not exited) the lock is free, so sections of
  other tasks can run between the sections of one button press.
\<close>

theorem sections_exclusive_lock_released_between:
  "reach L (boot d) c \<longrightarrow>
     (\<forall>t t' sec sec'. pcs c t = Holding sec \<and> pcs c t' = Holding sec' \<longrightarrow> t = t') \<and>
     (\<forall>t sec. pcs c t = Holding sec \<longrightarrow> holder c = Some t) \<and>
     (\<forall>t sec. pcs c t = Want sec \<longrightarrow> holder c \<noteq> Some t) \<and>
     ((\<forall>t. (\<forall>sec. pcs c t \<noteq> Holding sec) \<and> pcs c t \<noteq> Exited) \<longrightarrow> holder c = None)"
proof
  assume "reach L (boot d) c"
  then have i: "lock_inv c" by (rule lock_inv_reach)
  have a: "holder c = Some t" if "pcs c t = Holding sec" for t sec
    using i that by (auto simp add: lock_inv_def)
  have b: "(\<exists>sec. pcs c t = Holding sec) \<or> pcs c t = Exited" if "holder c = Some t" for t
    using i that by (auto simp add: lock_inv_def)
  have 1: "\<forall>t t' sec sec'. pcs c t = Holding sec \<and> pcs c t' = Holding sec' \<longrightarrow> t = t'"
    using a by (metis option.inject)
  have 2: "\<forall>t sec. pcs c t = Holding sec \<longrightarrow> holder c = Some t"
    using a by blast
  have 3: "\<forall>t sec. pcs c t = Want sec \<longrightarrow> holder c \<noteq> Some t"
    using b by (metis pc.distinct)
  have 4: "(\<forall>t. (\<forall>sec. pcs c t \<noteq> Holding sec) \<and> pcs c t \<noteq> Exited) \<longrightarrow> holder c = None"
    using b by (cases "holder c") auto
  show "(\<forall>t t' sec sec'. pcs c t = Holding sec \<and> pcs c t' = Holding sec' \<longrightarrow> t = t') \<and>
     (\<forall>t sec. pcs c t = Holding sec \<longrightarrow> holder c = Some t) \<and>
     (\<forall>t sec. pcs c t = Want sec \<longrightarrow> holder c \<noteq> Some t) \<and>
     ((\<forall>t. (\<forall>sec. pcs c t \<noteq> Holding sec) \<and> pcs c t \<noteq> Exited) \<longrightarrow> holder c = None)"
    using 1 2 3 4 by (intro conjI)
qed

theorem sections_exclusive_lock_released_between_witness:
  "pcs after_K3 K3 = Want Draw \<and> holder after_K3 \<noteq> Some K3 \<and>
   pcs at_draw Heartbeat = Holding Draw \<and> holder at_draw = Some Heartbeat"
proof -
  have r1: "reach lib0 (boot panel0) after_K3"
    using reach_start run_after_K3 by (rule reach_run)
  have r2: "reach lib0 (boot panel0) at_draw"
    using reach_start run_at_draw by (rule reach_run)
  have p: "pcs after_K3 K3 = Want Draw" "pcs at_draw Heartbeat = Holding Draw"
    by (simp_all add: after_K3_def at_draw_def)
  show ?thesis
    using sections_exclusive_lock_released_between [of lib0 panel0 after_K3]
      sections_exclusive_lock_released_between [of lib0 panel0 at_draw] r1 r2 p
    by blast
qed

section \<open>Binarization\<close>

lemma sendBit_le1: "sendBit thr c \<le> 1"
  by (cases c) (simp add: sendBit_def)

lemma sendBit_ne0: "sendBit thr c \<noteq> 0 \<longleftrightarrow> sendBit thr c = 1"
  by (cases c) (simp add: sendBit_def)

lemma sendCol_pixels:
  assumes "screen_ok d" "0 \<le> i" "i < 128" "0 \<le> j" "endY \<le> 64"
  shows "\<exists>d'. sendCol d thr i imgI j imgY endY = (None, d') \<and> only_buf d d' \<and> screen_ok d' \<and>
          (\<forall>x y. 0 \<le> x \<and> x < 128 \<and> 0 \<le> y \<and> y < 64 \<longrightarrow>
             pixelBit d' x y =
               (if x = i \<and> j \<le> y \<and> y < endY
                then sendBit thr (At (img d) imgI (imgY + (y - j))) = 1
                else pixelBit d x y))"
  using assms
proof (induction d thr i imgI j imgY endY rule: sendCol.induct)
  case (1 d thr i imgI j imgY endY)
  show ?case
  proof (cases "j < endY")
    case False
    then have "sendCol d thr i imgI j imgY endY = (None, d)"
      by (subst sendCol.simps) simp
    then show ?thesis using False "1.prems"(1) by (auto simp add: only_buf_refl)
  next
    case True
    let ?v = "sendBit thr (At (img d) imgI imgY)"
    have j64: "j < 64" using True "1.prems"(5) by simp
    have j1: "0 \<le> j + 1" using "1.prems"(4) by simp
    obtain d1 where sp: "setPixel d i j ?v = (None, d1)"
      using "1.prems" j64 sendBit_le1 [of thr "At (img d) imgI imgY"]
      by (simp add: setPixel_in_range)
    have d1: "d1 = snd (setPixel d i j ?v)" by (simp add: sp)
    have ok1: "screen_ok d1" unfolding d1 using "1.prems"(1) by (rule screen_ok_setPixel)
    have o1: "only_buf d d1" unfolding d1 by (rule only_buf_setPixel)
    have img1: "img d1 = img d" unfolding d1 by (simp add: setPixel_frame)
    have bits1: "pixelBit d1 x y = (if x = i \<and> y = j then ?v = 1 else pixelBit d x y)"
      if "0 \<le> x" "x < 128" "0 \<le> y" "y < 64" for x y
      unfolding d1
      using pixelBit_setPixel [OF "1.prems"(1,2,3,4) j64 sendBit_le1 that]
      by (simp add: sendBit_ne0)
    obtain d' where r: "sendCol d1 thr i imgI (j + 1) (imgY + 1) endY = (None, d')"
      and o2: "only_buf d1 d'" and ok2: "screen_ok d'"
      and bits2: "\<And>x y. 0 \<le> x \<and> x < 128 \<and> 0 \<le> y \<and> y < 64 \<Longrightarrow>
             pixelBit d' x y =
               (if x = i \<and> j + 1 \<le> y \<and> y < endY
                then sendBit thr (At (img d1) imgI (imgY + 1 + (y - (j + 1)))) = 1
                else pixelBit d1 x y)"
      using "1.IH" [OF True sp [symmetric] refl ok1 "1.prems"(2,3) j1 "1.prems"(5)] by auto
    have res: "sendCol d thr i imgI j imgY endY = (None, d')"
      using True sp r by (subst sendCol.simps) simp
    have bits: "pixelBit d' x y =
               (if x = i \<and> j \<le> y \<and> y < endY
                then sendBit thr (At (img d) imgI (imgY + (y - j))) = 1
                else pixelBit d x y)"
      if xy: "0 \<le> x \<and> x < 128 \<and> 0 \<le> y \<and> y < 64" for x y
    proof (cases "x = i \<and> y = j")
      case True
      then show ?thesis using bits2 [OF xy] bits1 [of x y] xy \<open>j < endY\<close> by simp
    next
      case False
      have "imgY + 1 + (y - (j + 1)) = imgY + (y - j)" by simp
      then show ?thesis using bits2 [OF xy] bits1 [of x y] xy False img1
        by auto
    qed
    show ?thesis
      using res only_buf_trans [OF o1 o2] ok2 bits by blast
  qed
qed


lemma sendCols_pixels:
  assumes "screen_ok d" "0 \<le> i" "endX \<le> 128" "endY \<le> 64"
  shows "\<exists>d'. sendCols d thr i imgI endX endY = (None, d') \<and> only_buf d d' \<and> screen_ok d' \<and>
          (\<forall>x y. 0 \<le> x \<and> x < 128 \<and> 0 \<le> y \<and> y < 64 \<longrightarrow>
             pixelBit d' x y =
               (if i \<le> x \<and> x < endX \<and> y < endY
                then sendBit thr (At (img d) (imgI + (x - i)) y) = 1
                else pixelBit d x y))"
  using assms
proof (induction d thr i imgI endX endY rule: sendCols.induct)
  case (1 d thr i imgI endX endY)
  show ?case
  proof (cases "i < endX")
    case False
    then have "sendCols d thr i imgI endX endY = (None, d)"
      by (subst sendCols.simps) simp
    then show ?thesis using False "1.prems"(1) by (auto simp add: only_buf_refl)
  next
    case True
    have i128: "i < 128" using True "1.prems"(3) by simp
    have i1: "0 \<le> i + 1" using "1.prems"(2) by simp
    obtain d1 where sc: "sendCol d thr i imgI 0 0 endY = (None, d1)"
      and o1: "only_buf d d1" and ok1: "screen_ok d1"
      and bits1: "\<And>x y. 0 \<le> x \<and> x < 128 \<and> 0 \<le> y \<and> y < 64 \<Longrightarrow>
             pixelBit d1 x y =
               (if x = i \<and> 0 \<le> y \<and> y < endY
                then sendBit thr (At (img d) imgI (0 + (y - 0))) = 1
                else pixelBit d x y)"
      using sendCol_pixels [OF "1.prems"(1,2) i128 order_refl "1.prems"(4), of thr imgI 0] by auto
    have img1: "img d1 = img d" using only_buf_fields(1) [OF o1] .
    obtain d' where r: "sendCols d1 thr (i + 1) (imgI + 1) endX endY = (None, d')"
      and o2: "only_buf d1 d'" and ok2: "screen_ok d'"
      and bits2: "\<And>x y. 0 \<le> x \<and> x < 128 \<and> 0 \<le> y \<and> y < 64 \<Longrightarrow>
             pixelBit d' x y =
               (if i + 1 \<le> x \<and> x < endX \<and> y < endY
                then sendBit thr (At (img d1) (imgI + 1 + (x - (i + 1))) y) = 1
                else pixelBit d1 x y)"
      using "1.IH" [OF True sc [symmetric] refl ok1 i1 "1.prems"(3,4)] by auto
    have res: "sendCols d thr i imgI endX endY = (None, d')"
      using True sc r by (subst sendCols.simps) simp
    have bits: "pixelBit d' x y =
               (if i \<le> x \<and> x < endX \<and> y < endY
                then sendBit thr (At (img d) (imgI + (x - i)) y) = 1
                else pixelBit d x y)"
      if xy: "0 \<le> x \<and> x < 128 \<and> 0 \<le> y \<and> y < 64" for x y
    proof -
      have "imgI + 1 + (x - (i + 1)) = imgI + (x - i)" by simp
      then show ?thesis using bits2 [OF xy] bits1 [OF xy] xy img1 \<open>i < endX\<close>
        by auto
    qed
    show ?thesis
      using res only_buf_trans [OF o1 o2] ok2 bits by blast
  qed
qed


lemma pixelBit_cong: "buf d' = buf d \<Longrightarrow> w d' = w d \<Longrightarrow> pixelBit d' x y = pixelBit d x y"
  by (simp add: pixelBit_def)

lemma draw_error: "fst (draw d) \<in> {None, Some IOFailure, Some DrawInitFailed}"
  by (simp add: draw_def devWrite_def split: prod.splits option.splits)

lemma Send_pixels:
  assumes "screen_ok d"
  shows "fst (Send L d) \<in> {None, Some IOFailure, Some DrawInitFailed}"
    and "\<forall>x y. 0 \<le> x \<and> x < 128 \<and> 0 \<le> y \<and> y < 64 \<longrightarrow>
           pixelBit (snd (Send L d)) x y =
             (if x < dx (img (applyRotation L d)) \<and> y < dy (img (applyRotation L d))
              then sendBit (getDynamicThreshold d) (At (img (applyRotation L d)) x y) = 1
              else pixelBit d x y)"
proof -
  let ?d = "applyRotation L d"
  let ?endX = "if dx (img ?d) \<ge> w ?d then w ?d else dx (img ?d)"
  let ?endY = "if dy (img ?d) \<ge> h ?d then h ?d else dy (img ?d)"
  have f: "w ?d = 128" "h ?d = 64" "buf ?d = buf d" "fontSize ?d = fontSize d"
    using assms by (simp_all add: applyRotation_def screen_ok_def)
  have ok: "screen_ok ?d" using assms f by (simp add: screen_ok_def)
  have thr: "getDynamicThreshold ?d = getDynamicThreshold d"
    by (simp add: getDynamicThreshold_def f)
  have e: "?endX \<le> 128" "?endY \<le> 64" by (simp_all add: f)
  obtain d' where sc: "sendCols ?d (getDynamicThreshold ?d) 0 0 ?endX ?endY = (None, d')"
    and o: "only_buf ?d d'" and ok': "screen_ok d'"
    and bits: "\<And>x y. 0 \<le> x \<and> x < 128 \<and> 0 \<le> y \<and> y < 64 \<Longrightarrow>
           pixelBit d' x y =
             (if 0 \<le> x \<and> x < ?endX \<and> y < ?endY
              then sendBit (getDynamicThreshold ?d) (At (img ?d) (0 + (x - 0)) y) = 1
              else pixelBit ?d x y)"
    using sendCols_pixels [OF ok order_refl e, of "getDynamicThreshold ?d" 0] by auto
  have S: "Send L d = draw d'"
    unfolding Send_def Let_def sc by simp
  show "fst (Send L d) \<in> {None, Some IOFailure, Some DrawInitFailed}"
    unfolding S by (rule draw_error)
  have pb: "pixelBit (snd (Send L d)) x y = pixelBit d' x y" for x y
    unfolding S by (rule pixelBit_cong) (simp_all add: draw_frame)
  have pd: "pixelBit ?d x y = pixelBit d x y" for x y
    by (rule pixelBit_cong) (simp_all add: f assms [unfolded screen_ok_def])
  show "\<forall>x y. 0 \<le> x \<and> x < 128 \<and> 0 \<le> y \<and> y < 64 \<longrightarrow>
           pixelBit (snd (Send L d)) x y =
             (if x < dx (img ?d) \<and> y < dy (img ?d)
              then sendBit (getDynamicThreshold d) (At (img ?d) x y) = 1
              else pixelBit d x y)"
  proof (intro allI impI)
    fix x y :: int
    assume xy: "0 \<le> x \<and> x < 128 \<and> 0 \<le> y \<and> y < 64"
    show "pixelBit (snd (Send L d)) x y =
             (if x < dx (img ?d) \<and> y < dy (img ?d)
              then sendBit (getDynamicThreshold d) (At (img ?d) x y) = 1
              else pixelBit d x y)"
      using bits [OF xy] xy by (auto simp add: pb pd f thr split: if_splits)
  qed
qed

lemma imageRow_pix:
  assumes "dx b = dx g" "dy b = dy g" "0 \<le> x" "0 \<le> y" "y < dy g"
  shows "imageRow g thr b x y =
     b\<lparr>pix := (\<lambda>x' y'. if y' = y \<and> x \<le> x' \<and> x' < dx g \<and> imageWhite thr (At g x' y)
                        then White else pix b x' y')\<rparr>"
  using assms
proof (induction g thr b x y rule: imageRow.induct)
  case (1 g thr b x y)
  show ?case
  proof (cases "x < dx g")
    case False
    then have "imageRow g thr b x y = b" by (subst imageRow.simps) simp
    moreover have "(\<lambda>x' y'. if y' = y \<and> x \<le> x' \<and> x' < dx g \<and> imageWhite thr (At g x' y)
                        then White else pix b x' y') = pix b"
      using False by (intro ext) auto
    ultimately show ?thesis by simp
  next
    case True
    let ?b1 = "if imageWhite thr (At g x y) then Set_px b x y White else b"
    have inb: "inBounds b x y" using True "1.prems" by (simp add: inBounds_def)
    have b1: "?b1 = b\<lparr>pix := (\<lambda>x' y'. if x' = x \<and> y' = y \<and> imageWhite thr (At g x y)
                        then White else pix b x' y')\<rparr>"
      using inb by (auto simp add: Set_px_def intro!: ext)
    have dims: "dx ?b1 = dx g" "dy ?b1 = dy g"
      using "1.prems" by (simp_all add: Set_px_def)
    have x1: "0 \<le> x + 1" using "1.prems" by simp
    have "imageRow g thr b x y = imageRow g thr ?b1 (x + 1) y"
      using True by (subst imageRow.simps) simp
    also have "\<dots> = ?b1\<lparr>pix := (\<lambda>x' y'. if y' = y \<and> x + 1 \<le> x' \<and> x' < dx g
                            \<and> imageWhite thr (At g x' y)
                        then White else pix ?b1 x' y')\<rparr>"
      using "1.IH" [OF True dims x1 "1.prems"(4,5)] .
    also have "\<dots> = b\<lparr>pix := (\<lambda>x' y'. if y' = y \<and> x \<le> x' \<and> x' < dx g
                            \<and> imageWhite thr (At g x' y)
                        then White else pix b x' y')\<rparr>"
    proof -
      have "(\<lambda>x' y'. if y' = y \<and> x + 1 \<le> x' \<and> x' < dx g \<and> imageWhite thr (At g x' y)
                        then White else pix ?b1 x' y')
          = (\<lambda>x' y'. if y' = y \<and> x \<le> x' \<and> x' < dx g \<and> imageWhite thr (At g x' y)
                        then White else pix b x' y')"
      proof (intro ext)
        fix x' y'
        have "x \<le> x' \<longleftrightarrow> x' = x \<or> x + 1 \<le> x'" by auto
        then show "(if y' = y \<and> x + 1 \<le> x' \<and> x' < dx g \<and> imageWhite thr (At g x' y)
                        then White else pix ?b1 x' y')
          = (if y' = y \<and> x \<le> x' \<and> x' < dx g \<and> imageWhite thr (At g x' y)
                        then White else pix b x' y')"
          unfolding b1 using True by auto
      qed
      then show ?thesis by (simp add: b1)
    qed
    finally show ?thesis .
  qed
qed

lemma imageRows_pix:
  assumes "dx b = dx g" "dy b = dy g" "0 \<le> y"
  shows "imageRows g thr b y =
     b\<lparr>pix := (\<lambda>x' y'. if y \<le> y' \<and> y' < dy g \<and> 0 \<le> x' \<and> x' < dx g
                            \<and> imageWhite thr (At g x' y')
                        then White else pix b x' y')\<rparr>"
  using assms
proof (induction g thr b y rule: imageRows.induct)
  case (1 g thr b y)
  show ?case
  proof (cases "y < dy g")
    case False
    then have "imageRows g thr b y = b" by (subst imageRows.simps) simp
    moreover have "(\<lambda>x' y'. if y \<le> y' \<and> y' < dy g \<and> 0 \<le> x' \<and> x' < dx g
                            \<and> imageWhite thr (At g x' y')
                        then White else pix b x' y') = pix b"
      using False by (intro ext) auto
    ultimately show ?thesis by simp
  next
    case True
    let ?b1 = "imageRow g thr b 0 y"
    have b1: "?b1 = b\<lparr>pix := (\<lambda>x' y'. if y' = y \<and> 0 \<le> x' \<and> x' < dx g
                            \<and> imageWhite thr (At g x' y)
                        then White else pix b x' y')\<rparr>"
      using imageRow_pix [OF "1.prems"(1,2) order_refl "1.prems"(3) True] .
    have dims: "dx ?b1 = dx g" "dy ?b1 = dy g"
      using "1.prems" by (simp_all add: b1)
    have y1: "0 \<le> y + 1" using "1.prems" by simp
    have "imageRows g thr b y = imageRows g thr ?b1 (y + 1)"
      using True by (subst imageRows.simps) simp
    also have "\<dots> = ?b1\<lparr>pix := (\<lambda>x' y'. if y + 1 \<le> y' \<and> y' < dy g \<and> 0 \<le> x' \<and> x' < dx g
                            \<and> imageWhite thr (At g x' y')
                        then White else pix ?b1 x' y')\<rparr>"
      using "1.IH" [OF True dims y1] .
    also have "\<dots> = b\<lparr>pix := (\<lambda>x' y'. if y \<le> y' \<and> y' < dy g \<and> 0 \<le> x' \<and> x' < dx g
                            \<and> imageWhite thr (At g x' y')
                        then White else pix b x' y')\<rparr>"
    proof -
      have "(\<lambda>x' y'. if y + 1 \<le> y' \<and> y' < dy g \<and> 0 \<le> x' \<and> x' < dx g
                            \<and> imageWhite thr (At g x' y')
                        then White else pix ?b1 x' y')
          = (\<lambda>x' y'. if y \<le> y' \<and> y' < dy g \<and> 0 \<le> x' \<and> x' < dx g
                            \<and> imageWhite thr (At g x' y')
                        then White else pix b x' y')"
      proof (intro ext)
        fix x' y'
        have "y \<le> y' \<longleftrightarrow> y' = y \<or> y + 1 \<le> y'" by auto
        then show "(if y + 1 \<le> y' \<and> y' < dy g \<and> 0 \<le> x' \<and> x' < dx g
                            \<and> imageWhite thr (At g x' y')
                        then White else pix ?b1 x' y')
          = (if y \<le> y' \<and> y' < dy g \<and> 0 \<le> x' \<and> x' < dx g
                            \<and> imageWhite thr (At g x' y')
                        then White else pix b x' y')"
          unfolding b1 using True by auto
      qed
      then show ?thesis by (simp add: b1)
    qed
    finally show ?thesis .
  qed
qed

lemma Image_pixels:
  "fst (Image d (Some g)) = None"
  "inBounds g x y \<Longrightarrow>
     At (img (snd (Image d (Some g)))) x y =
       (if imageWhite (getDynamicThreshold d) (At g x y) then White else Black)"
proof -
  let ?b = "\<lparr>dx = dx g, dy = dy g, pix = (\<lambda>x y. Black)\<rparr>"
  have r: "imageRows g (getDynamicThreshold d) ?b 0 =
      ?b\<lparr>pix := (\<lambda>x' y'. if 0 \<le> y' \<and> y' < dy g \<and> 0 \<le> x' \<and> x' < dx g
                            \<and> imageWhite (getDynamicThreshold d) (At g x' y')
                        then White else pix ?b x' y')\<rparr>"
    by (rule imageRows_pix) simp_all
  show "fst (Image d (Some g)) = None" by (simp add: Image_def Let_def)
  show "At (img (snd (Image d (Some g)))) x y =
       (if imageWhite (getDynamicThreshold d) (At g x y) then White else Black)"
    if "inBounds g x y"
    using that by (simp add: Image_def Let_def r At_def inBounds_def)
qed

text \<open>
  Claim C8. The dynamic threshold is \<open>(90 - 10) * 256\<close> for a font size up to 12,
  \<open>90 * 256\<close> for a size strictly between 12 and 24 and \<open>(90 + 10) * 256\<close> from 24 on, and
  the three values increase strictly. \<open>Image\<close> and \<open>Send\<close> apply the same test with it:
  the two per-pixel tests accept the same colours; a pixel of the picture that \<open>Image\<close>
  stores is white exactly when the loaded pixel passes the test, and a bit of the buffer
  that \<open>Send\<close> writes is set exactly when the canvas pixel passes it.
\<close>

theorem dynamic_threshold_buckets:
  "(fontSize d \<le> 12 \<longrightarrow> getDynamicThreshold d = (90 - 10) * 256) \<and>
   (12 < fontSize d \<and> fontSize d < 24 \<longrightarrow> getDynamicThreshold d = 90 * 256) \<and>
   (24 \<le> fontSize d \<longrightarrow> getDynamicThreshold d = (90 + 10) * 256) \<and>
   (90 - 10) * 256 < (90 * 256 :: 16 word) \<and> 90 * 256 < ((90 + 10) * 256 :: 16 word) \<and>
   (imageWhite (getDynamicThreshold d) c \<longleftrightarrow> sendBit (getDynamicThreshold d) c = 1) \<and>
   (inBounds g x y \<longrightarrow>
      At (img (snd (Image d (Some g)))) x y =
        (if imageWhite (getDynamicThreshold d) (At g x y) then White else Black)) \<and>
   (screen_ok d \<and> 0 \<le> x \<and> x < 128 \<and> 0 \<le> y \<and> y < 64 \<and>
    x < dx (img (applyRotation L d)) \<and> y < dy (img (applyRotation L d)) \<longrightarrow>
      pixelBit (snd (Send L d)) x y =
        (sendBit (getDynamicThreshold d) (At (img (applyRotation L d)) x y) = 1))"
proof -
  have buckets:
    "(fontSize d \<le> 12 \<longrightarrow> getDynamicThreshold d = (90 - 10) * 256) \<and>
     (12 < fontSize d \<and> fontSize d < 24 \<longrightarrow> getDynamicThreshold d = 90 * 256) \<and>
     (24 \<le> fontSize d \<longrightarrow> getDynamicThreshold d = (90 + 10) * 256) \<and>
     (90 - 10) * 256 < (90 * 256 :: 16 word) \<and> 90 * 256 < ((90 + 10) * 256 :: 16 word)"
    by (simp add: getDynamicThreshold_def baseAntiAliasThresh_def sizeThresholdSmall_def
        sizeThresholdLarge_def)
  have same: "imageWhite (getDynamicThreshold d) c \<longleftrightarrow> sendBit (getDynamicThreshold d) c = 1"
    by (rule same_test)
  have image: "inBounds g x y \<longrightarrow>
      At (img (snd (Image d (Some g)))) x y =
        (if imageWhite (getDynamicThreshold d) (At g x y) then White else Black)"
    using Image_pixels(2) [of g x y d] by blast
  have send: "screen_ok d \<and> 0 \<le> x \<and> x < 128 \<and> 0 \<le> y \<and> y < 64 \<and>
    x < dx (img (applyRotation L d)) \<and> y < dy (img (applyRotation L d)) \<longrightarrow>
      pixelBit (snd (Send L d)) x y =
        (sendBit (getDynamicThreshold d) (At (img (applyRotation L d)) x y) = 1)"
    using Send_pixels(2) [of d L] by auto
  show ?thesis using buckets same image send by (intro conjI) blast+
qed

theorem dynamic_threshold_buckets_witness:
  "getDynamicThreshold (SetFontSize panel0 10) = (90 - 10) * 256 \<and>
   getDynamicThreshold panel0 = 90 * 256 \<and>
   getDynamicThreshold (SetFontSize panel0 24) = (90 + 10) * 256 \<and>
   (imageWhite (getDynamicThreshold panel0) White \<longleftrightarrow>
      sendBit (getDynamicThreshold panel0) White = 1) \<and>
   At (img (snd (Image panel0 (Some whiteDot)))) 0 0 =
     (if imageWhite (getDynamicThreshold panel0) (At whiteDot 0 0) then White else Black) \<and>
   pixelBit (snd (Send lib0 panel0)) 0 0 =
     (sendBit (getDynamicThreshold panel0) (At (img (applyRotation lib0 panel0)) 0 0) = 1)"
proof -
  have f: "fontSize (SetFontSize panel0 10) \<le> 12"
    "12 < fontSize panel0 \<and> fontSize panel0 < 24"
    "24 \<le> fontSize (SetFontSize panel0 24)"
    by (simp_all add: SetFontSize_def panel0_def)
  have g: "inBounds whiteDot 0 0" by (simp add: inBounds_def whiteDot_def)
  have s: "screen_ok panel0 \<and> (0::int) \<le> 0 \<and> (0::int) < 128 \<and> (0::int) \<le> 0 \<and> (0::int) < 64 \<and>
    0 < dx (img (applyRotation lib0 panel0)) \<and> 0 < dy (img (applyRotation lib0 panel0))"
    by (simp add: screen_ok_def panel0_def applyRotation_def NewNRGBA_def)
  show ?thesis
    using dynamic_threshold_buckets [of "SetFontSize panel0 10" White whiteDot 0 0 lib0]
      dynamic_threshold_buckets [of panel0 White whiteDot 0 0 lib0]
      dynamic_threshold_buckets [of "SetFontSize panel0 24" White whiteDot 0 0 lib0] f g s
    by blast
qed

section \<open>Properties of the rounding function\<close>

text \<open>
  \<open>binade\<close> is the binary exponent of a positive rational, and \<open>float64\<close> is within half
  a unit in the last place of its argument.
\<close>

lemma pow2_powi: "pow2 e = 2 powi e"
  by (simp add: pow2_def power_int_def inverse_eq_divide power_one_over)

lemma bit_length_nonneg: "0 \<le> bit_length n"
proof (induction n rule: bit_length.induct)
  case (1 n)
  show ?case
  proof (cases "n \<le> 0")
    case True
    then show ?thesis by (subst bit_length.simps) simp
  next
    case False
    then have "0 \<le> bit_length (n div 2)" by (rule "1.IH")
    then show ?thesis using False by (subst bit_length.simps) simp
  qed
qed

lemma bit_length_bounds:
  "0 < n \<Longrightarrow> 2 ^ nat (bit_length n - 1) \<le> n \<and> n < 2 ^ nat (bit_length n)"
proof (induction n rule: bit_length.induct)
  case (1 n)
  have pos: "\<not> n \<le> 0" using "1.prems" by simp
  have bl: "bit_length n = 1 + bit_length (n div 2)"
    using pos by (subst bit_length.simps) simp
  show ?case
  proof (cases "n div 2 = 0")
    case True
    then have n1: "n = 1" using "1.prems" by presburger
    have "bit_length (0::int) = 0" by (subst bit_length.simps) simp
    then show ?thesis using bl True n1 by simp
  next
    case False
    then have h: "0 < n div 2" using "1.prems" by simp
    let ?k = "bit_length (n div 2)"
    have ih: "2 ^ nat (?k - 1) \<le> n div 2" "n div 2 < 2 ^ nat ?k"
      using "1.IH" [OF pos h] by simp_all
    have kpos: "0 < ?k"
    proof (rule ccontr)
      assume "\<not> 0 < ?k"
      then have "?k = 0" using bit_length_nonneg [of "n div 2"] by simp
      then show False using ih(2) h by simp
    qed
    have s: "nat ?k = Suc (nat (?k - 1))" using kpos by simp
    have lo: "2 ^ nat ?k \<le> n"
    proof -
      have "(2::int) ^ nat ?k = 2 * 2 ^ nat (?k - 1)" by (subst s) simp
      also have "\<dots> \<le> 2 * (n div 2)" using ih(1) by simp
      also have "\<dots> \<le> n" by simp
      finally show ?thesis .
    qed
    have hi: "n < 2 ^ nat (1 + ?k)"
    proof -
      have "n div 2 + 1 \<le> 2 ^ nat ?k" using ih(2) by simp
      then have "2 * (n div 2 + 1) \<le> 2 * 2 ^ nat ?k" by simp
      moreover have "n < 2 * (n div 2 + 1)" by presburger
      moreover have "(2::int) ^ nat (1 + ?k) = 2 * 2 ^ nat ?k"
        using kpos by (simp add: nat_add_distrib)
      ultimately show ?thesis by simp
    qed
    show ?thesis using lo hi by (simp add: bl)
  qed
qed


lemma bit_length_rat:
  assumes "0 < n"
  shows "2 powi (bit_length n - 1) \<le> (of_int n :: rat)" "(of_int n :: rat) < 2 powi (bit_length n)"
proof -
  have b: "2 ^ nat (bit_length n - 1) \<le> n" "n < 2 ^ nat (bit_length n)"
    using bit_length_bounds [OF assms] by simp_all
  have pos: "1 \<le> bit_length n"
  proof (rule ccontr)
    assume "\<not> 1 \<le> bit_length n"
    then have "bit_length n = 0" using bit_length_nonneg [of n] by simp
    then show False using b(2) assms by simp
  qed
  have "(of_int (2 ^ nat (bit_length n - 1)) :: rat) \<le> of_int n"
    using b(1) by (simp only: of_int_le_iff)
  then show "2 powi (bit_length n - 1) \<le> (of_int n :: rat)"
    using pos by (simp add: power_int_def)
  have "(of_int n :: rat) < of_int (2 ^ nat (bit_length n))"
    using b(2) by (simp only: of_int_less_iff)
  then show "(of_int n :: rat) < 2 powi (bit_length n)"
    using pos by (simp add: power_int_def)
qed

lemma binade_bounds:
  assumes "0 < x"
  shows "pow2 (binade x) \<le> x \<and> x < pow2 (binade x + 1)"
proof -
  obtain p q where pq: "quotient_of x = (p, q)" by (cases "quotient_of x")
  have q: "0 < q" using pq by (rule quotient_of_denom_pos)
  have x: "x = of_int p / of_int q" using pq by (rule quotient_of_div)
  have p: "0 < p" using assms q x by (simp add: zero_less_divide_iff)
  let ?a = "bit_length p" and ?b = "bit_length q"
  let ?k = "?a - ?b"
  have pw: "(0::rat) < 2 powi e" for e by (rule zero_less_power_int) simp
  have qr: "(0::rat) < of_int q" using q by simp
  have pr: "(0::rat) < of_int p" using p by simp
  have up: "x < 2 powi (?k + 1)"
  proof -
    have "x < 2 powi ?a / of_int q"
      unfolding x using bit_length_rat(2) [OF p] qr by (simp add: divide_strict_right_mono)
    also have "\<dots> \<le> 2 powi ?a / 2 powi (?b - 1)"
      by (rule divide_left_mono
          [OF bit_length_rat(1) [OF q] less_imp_le [OF pw] mult_pos_pos [OF qr pw]])
    also have "\<dots> = 2 powi (?k + 1)"
      by (simp add: power_int_diff power_int_add)
    finally show ?thesis .
  qed
  have lo: "2 powi (?k - 1) \<le> x"
  proof -
    have "2 powi (?k - 1) = 2 powi (?a - 1) / (2 powi ?b :: rat)"
      by (simp add: power_int_diff)
    also have "\<dots> \<le> of_int p / 2 powi ?b"
      using bit_length_rat(1) [OF p] by (intro divide_right_mono) simp_all
    also have "\<dots> \<le> of_int p / of_int q"
      by (rule divide_left_mono
          [OF less_imp_le [OF bit_length_rat(2) [OF q]] less_imp_le [OF pr]
            mult_pos_pos [OF pw qr]])
    finally show ?thesis by (simp add: x)
  qed
  have b: "binade x = (if 2 powi ?k \<le> x then ?k else ?k - 1)"
    by (simp add: binade_def pq Let_def pow2_powi)
  show ?thesis
  proof (cases "2 powi ?k \<le> x")
    case True
    then show ?thesis using up by (simp add: b pow2_powi)
  next
    case False
    then show ?thesis using lo by (simp add: b pow2_powi)
  qed
qed


lemma round_half_even_error: "\<bar>of_int (round_half_even x) - x\<bar> \<le> 1 / 2"
proof -
  define f where "f = \<lfloor>x\<rfloor>"
  define r where "r = x - of_int f"
  have r: "0 \<le> r" "r < 1" unfolding r_def f_def by linarith+
  have x: "x = of_int f + r" by (simp add: r_def)
  have e: "round_half_even x =
      (if r < 1 / 2 then f else if r > 1 / 2 then f + 1 else if even f then f else f + 1)"
    by (simp add: round_half_even_def Let_def f_def r_def)
  have "\<bar>of_int (if r < 1 / 2 then f else if r > 1 / 2 then f + 1 else if even f then f else f + 1)
      - (of_int f + r)\<bar> \<le> 1 / 2"
    using r by (auto simp add: abs_if)
  then show ?thesis by (simp only: e [symmetric] x [symmetric])
qed

lemma float64_error:
  "\<bar>float64 x - x\<bar> \<le> pow2 (max (binade \<bar>x\<bar>) (- 1022) - 52) / 2"
proof (cases "x = 0")
  case True
  then show ?thesis by (simp add: float64_def pow2_powi)
next
  case False
  define u where "u = pow2 (max (binade \<bar>x\<bar>) (- 1022) - 52)"
  define n where "n = round_half_even (x / u)"
  have u: "0 < u" unfolding u_def pow2_powi by (rule zero_less_power_int) simp
  have f: "float64 x = of_int n * u"
    using False by (simp add: float64_def Let_def u_def n_def)
  have "float64 x - x = (of_int n - x / u) * u"
    using u by (simp add: f left_diff_distrib)
  then have "\<bar>float64 x - x\<bar> = \<bar>of_int n - x / u\<bar> * u"
    using u by (simp add: abs_mult)
  also have "\<dots> \<le> 1 / 2 * u"
    using round_half_even_error [of "x / u"] u unfolding n_def
    by (intro mult_right_mono) simp_all
  finally show ?thesis by (simp add: u_def)
qed

end
